theory Spec2Isabelle
  imports Complex_Main
begin

section \<open>The program: \<open>farthest_neighbor\<close> of \<open>src/mlg_clustering.c\<close>\<close>

text \<open>
  The C function takes an R matrix \<open>dist\<close> with dim attribute \<open>(n, n)\<close>, an R numeric
  vector \<open>mlg\<close> and a real \<open>threshold\<close>. In the model
  \<^item> \<open>n\<close> is \<open>num_individuals\<close>, the first entry of the dim attribute;
  \<^item> \<open>dists\<close> (the source's \<open>dist\<close>, a name HOL already uses) gives the cell of
    \<open>REAL(dist)\<close> at a flat C index; the program only compares and copies these doubles,
    so they are reals here (no NaN and no infinity among them); R stores \<open>n * n\<close> cells
    for a matrix of dim \<open>(n, n)\<close>, which holds every index \<open>k * n + l\<close> with \<open>k, l < n\<close>;
  \<^item> \<open>mlg\<close> is the list of the whole numbers that the implicit conversion at line 119
    yields for the entries of \<open>REAL(mlg)\<close>;
  \<^item> an access outside an allocated block, which C leaves undefined, is the fault
    \<open>OutOfBounds\<close>; the source has no error return of its own, and the model takes every
    allocation to succeed;
  \<^item> a cell of the freshly allocated result vector that is never written is \<open>None\<close>.
  C \<open>int\<close> values are unbounded integers and naturals here: the model does not cover an
  \<open>n\<close> so large that the flat index \<open>k * n + l\<close> leaves the range of \<open>int\<close>.
\<close>

datatype fault = OutOfBounds

record state =
  cluster_matrix :: "int list list"
  cluster_size :: "nat list"
  num_clusters :: int

text \<open>Lines 86 to 105 and 116: every cell of the matrix is \<open>-1\<close>, every size is \<open>0\<close>.\<close>

definition alloc :: "nat \<Rightarrow> state" where
  "alloc n = \<lparr>cluster_matrix = replicate n (replicate n (- 1)),
              cluster_size = replicate n 0,
              num_clusters = 0\<rparr>"

text \<open>Lines 117 to 129: the initial clusters are filled from \<open>mlg\<close>.\<close>

definition place :: "nat \<Rightarrow> nat \<Rightarrow> state \<Rightarrow> state" where
  \<comment> \<open>lines 121 to 128, for individual \<open>i\<close> and the row \<open>r = cur_mlg - 1\<close>\<close>
  "place i r s =
     (let c = cluster_size s ! r;
          s1 = s\<lparr>cluster_matrix := (cluster_matrix s)[r := (cluster_matrix s ! r)[c := int i]],
                 cluster_size := (cluster_size s)[r := c + 1]\<rparr>
      in if cluster_size s1 ! r = 1 then s1\<lparr>num_clusters := num_clusters s1 + 1\<rparr> else s1)"

function fill_clusters :: "nat \<Rightarrow> int list \<Rightarrow> nat \<Rightarrow> state \<Rightarrow> fault + state" where
  "fill_clusters n mlg i s =
     (if i < n then
        (if length mlg \<le> i then Inl OutOfBounds
         else
           let cur_mlg = mlg ! i in
           if cur_mlg - 1 < 0 \<or> int n \<le> cur_mlg - 1 then Inl OutOfBounds
           else if n \<le> cluster_size s ! nat (cur_mlg - 1) then Inl OutOfBounds
           else fill_clusters n mlg (i + 1) (place i (nat (cur_mlg - 1)) s))
      else Inr s)"
  by pat_completeness auto
termination
  by (relation "measure (\<lambda>(n, mlg, i, s). n - i)") auto

declare fill_clusters.simps [simp del]

text \<open>Lines 161 to 170: the members of cluster \<open>j\<close> against one member of cluster \<open>i\<close>.\<close>

function l_loop :: "nat \<Rightarrow> (int \<Rightarrow> real) \<Rightarrow> int list \<Rightarrow> int \<Rightarrow> nat \<Rightarrow> real \<Rightarrow> real" where
  "l_loop n dists row_j k_individual_val l tmp_max =
     (if l < n \<and> row_j ! l \<noteq> - 1 then
        let l_individual_val = row_j ! l;
            d = dists (k_individual_val * int n + l_individual_val)
        in l_loop n dists row_j k_individual_val (l + 1) (if d > tmp_max then d else tmp_max)
      else tmp_max)"
  by pat_completeness auto
termination
  by (relation "measure (\<lambda>(n, dists, row_j, kv, l, t). n - l)") auto

declare l_loop.simps [simp del]

text \<open>Lines 157 to 171: the members of cluster \<open>i\<close>.\<close>

function k_loop :: "nat \<Rightarrow> (int \<Rightarrow> real) \<Rightarrow> int list \<Rightarrow> int list \<Rightarrow> nat \<Rightarrow> real \<Rightarrow> real" where
  "k_loop n dists row_i row_j k tmp_max =
     (if k < n \<and> row_i ! k \<noteq> - 1 then
        k_loop n dists row_i row_j (k + 1) (l_loop n dists row_j (row_i ! k) 0 tmp_max)
      else tmp_max)"
  by pat_completeness auto
termination
  by (relation "measure (\<lambda>(n, dists, row_i, row_j, k, t). n - k)") auto

declare k_loop.simps [simp del]

text \<open>
  Lines 154 to 181: the clusters \<open>j\<close> after cluster \<open>i\<close>. The loop carries \<open>tmp_max\<close>,
  \<open>min_cluster_distance\<close> and \<open>closest_pair\<close>; \<open>tmp_max\<close> is not reset between two \<open>j\<close>.
\<close>

function j_loop :: "nat \<Rightarrow> (int \<Rightarrow> real) \<Rightarrow> int list list \<Rightarrow> nat \<Rightarrow> nat \<Rightarrow>
    real \<times> real \<times> int \<times> int \<Rightarrow> real \<times> real \<times> int \<times> int" where
  "j_loop n dists cm i j (tmp_max, min_cluster_distance, closest_pair) =
     (if j < n then
        let tmp_max' = k_loop n dists (cm ! i) (cm ! j) 0 tmp_max in
        if tmp_max' > - 0.5 \<and> (tmp_max' < min_cluster_distance \<or> min_cluster_distance < 0)
        then j_loop n dists cm i (j + 1) (tmp_max', tmp_max', (int i, int j))
        else j_loop n dists cm i (j + 1) (tmp_max', min_cluster_distance, closest_pair)
      else (tmp_max, min_cluster_distance, closest_pair))"
  by pat_completeness auto
termination
  by (relation "measure (\<lambda>(n, dists, cm, i, j, v). n - j)") auto

declare j_loop.simps [simp del]

text \<open>Lines 149 to 182: every cluster \<open>i\<close>, with \<open>tmp_max\<close> set to \<open>-1\<close> once for each.\<close>

function i_loop :: "nat \<Rightarrow> (int \<Rightarrow> real) \<Rightarrow> int list list \<Rightarrow> nat \<Rightarrow>
    real \<times> int \<times> int \<Rightarrow> real \<times> int \<times> int" where
  "i_loop n dists cm i (min_cluster_distance, closest_pair) =
     (if i < n then
        i_loop n dists cm (i + 1)
          (snd (j_loop n dists cm i (i + 1) (- 1, min_cluster_distance, closest_pair)))
      else (min_cluster_distance, closest_pair))"
  by pat_completeness auto
termination
  by (relation "measure (\<lambda>(n, dists, cm, i, v). n - i)") auto

declare i_loop.simps [simp del]

text \<open>Lines 142 to 182: one scan, from \<open>min_cluster_distance = -1\<close> and
  \<open>closest_pair = (-1, -1)\<close>.\<close>

definition scan :: "nat \<Rightarrow> (int \<Rightarrow> real) \<Rightarrow> int list list \<Rightarrow> real \<times> int \<times> int" where
  "scan n dists cm = i_loop n dists cm 0 (- 1, (- 1, - 1))"

text \<open>Lines 190 to 195: the members of \<open>closest_pair[1]\<close> move to \<open>closest_pair[0]\<close>.\<close>

definition move_member :: "nat \<Rightarrow> nat \<Rightarrow> nat \<Rightarrow> state \<Rightarrow> state" where
  \<comment> \<open>lines 192 to 194, for \<open>a = closest_pair[0]\<close> and \<open>b = closest_pair[1]\<close>\<close>
  "move_member a b i s =
     (let cm = cluster_matrix s;
          cm1 = cm[a := (cm ! a)[cluster_size s ! a := cm ! b ! i]];
          cm2 = cm1[b := (cm1 ! b)[i := - 1]]
      in s\<lparr>cluster_matrix := cm2,
            cluster_size := (cluster_size s)[a := cluster_size s ! a + 1]\<rparr>)"

function merge_loop :: "nat \<Rightarrow> int \<times> int \<Rightarrow> nat \<Rightarrow> state \<Rightarrow> fault + state" where
  "merge_loop n closest_pair i s =
     (if snd closest_pair < 0 \<or> int n \<le> snd closest_pair then Inl OutOfBounds
      else if i < cluster_size s ! nat (snd closest_pair) then
        (if fst closest_pair < 0 \<or> int n \<le> fst closest_pair
            \<or> n \<le> cluster_size s ! nat (fst closest_pair) \<or> n \<le> i
         then Inl OutOfBounds
         else merge_loop n closest_pair (i + 1)
                (move_member (nat (fst closest_pair)) (nat (snd closest_pair)) i s))
      else Inr s)"
  by pat_completeness auto
termination
  by (relation "measure (\<lambda>(n, cp, i, s). n - i)") auto

declare merge_loop.simps [simp del]

text \<open>Lines 142 to 198: the body of the main loop, one scan and at most one merge.
  It returns the new \<open>min_cluster_distance\<close> with the new state.\<close>

definition iteration :: "nat \<Rightarrow> (int \<Rightarrow> real) \<Rightarrow> real \<Rightarrow> state \<Rightarrow> fault + (real \<times> state)" where
  "iteration n dists thresh s =
     (case scan n dists (cluster_matrix s) of (min_cluster_distance, closest_pair) \<Rightarrow>
        if min_cluster_distance < thresh then
          (case merge_loop n closest_pair 0 s of
             Inl e \<Rightarrow> Inl e
           | Inr s' \<Rightarrow>
               Inr (min_cluster_distance,
                    s'\<lparr>cluster_size := (cluster_size s')[nat (snd closest_pair) := 0],
                       num_clusters := num_clusters s' - 1\<rparr>))
        else Inr (min_cluster_distance, s))"

text \<open>
  Lines 136 to 199: the main loop. It ends: an iteration either merges, and then
  \<open>num_clusters\<close> is one less (the inner loop of a merge leaves it alone), or it leaves the
  state as it is with a distance that is not below the threshold.
\<close>

function main_loop :: "nat \<Rightarrow> (int \<Rightarrow> real) \<Rightarrow> real \<Rightarrow> real \<Rightarrow> state \<Rightarrow> fault + state" where
  "main_loop n dists thresh min_cluster_distance s =
     (if min_cluster_distance < thresh \<and> 1 < num_clusters s then
        (case iteration n dists thresh s of
           Inl e \<Rightarrow> Inl e
         | Inr (min_cluster_distance', s') \<Rightarrow> main_loop n dists thresh min_cluster_distance' s')
      else Inr s)"
  by pat_completeness auto
termination
proof (relation "measure (\<lambda>(n, dists, thresh, m, s).
                    2 * nat (num_clusters s) + (if m < thresh then 1 else 0))", goal_cases)
  case 1
  show ?case by simp
next
  case (2 n dists thresh m s x2 m' s')
  have keep: "num_clusters t' = num_clusters t" if "merge_loop k cp i t = Inr t'" for k cp i t t'
    using that
  proof (induction k cp i t rule: merge_loop.induct)
    case (1 k cp i t)
    show ?case
    proof (cases "i < cluster_size t ! nat (snd cp)")
      case True
      from "1.prems" True have ok1: "\<not> (snd cp < 0 \<or> int k \<le> snd cp)"
        and ok2: "\<not> (fst cp < 0 \<or> int k \<le> fst cp \<or> k \<le> cluster_size t ! nat (fst cp) \<or> k \<le> i)"
        by (subst (asm) merge_loop.simps, simp split: if_splits)+
      from "1.prems" True ok1 ok2
      have "merge_loop k cp (i + 1) (move_member (nat (fst cp)) (nat (snd cp)) i t) = Inr t'"
        by (subst (asm) merge_loop.simps) simp
      from "1.IH"[OF ok1 True ok2 this] show ?thesis
        by (simp add: move_member_def Let_def)
    next
      case False
      with "1.prems" show ?thesis
        by (subst (asm) merge_loop.simps) (simp split: if_splits)
    qed
  qed
  from 2 have "iteration n dists thresh s = Inr (m', s')" by simp
  then have "(m' < thresh \<and> num_clusters s' = num_clusters s - 1) \<or> (\<not> m' < thresh \<and> s' = s)"
    by (auto simp: iteration_def split: prod.splits if_splits sum.splits dest: keep)
  with 2(1) show ?case by auto
qed

declare main_loop.simps [simp del]

text \<open>Lines 205 to 209: the members of cluster \<open>i\<close> get the label \<open>i + 1\<close>.\<close>

function fill_row :: "nat \<Rightarrow> int list \<Rightarrow> nat \<Rightarrow> nat \<Rightarrow> int option list \<Rightarrow> fault + int option list" where
  "fill_row n row i j rout =
     (if j < n \<and> real_of_int (row ! j) > - 0.5 then
        (if int n \<le> row ! j then Inl OutOfBounds
         else fill_row n row i (j + 1) (rout[nat (row ! j) := Some (int i + 1)]))
      else Inr rout)"
  by pat_completeness auto
termination
  by (relation "measure (\<lambda>(n, row, i, j, rout). n - j)") auto

declare fill_row.simps [simp del]

text \<open>Lines 203 to 211: the return vector.\<close>

function fill_return :: "nat \<Rightarrow> int list list \<Rightarrow> nat \<Rightarrow> int option list \<Rightarrow> fault + int option list" where
  "fill_return n cm i rout =
     (if i < n then
        (case fill_row n (cm ! i) i 0 rout of
           Inl e \<Rightarrow> Inl e
         | Inr rout' \<Rightarrow> fill_return n cm (i + 1) rout')
      else Inr rout)"
  by pat_completeness auto
termination
  by (relation "measure (\<lambda>(n, cm, i, rout). n - i)") auto

declare fill_return.simps [simp del]

text \<open>Lines 46 to 226: the whole call. It returns the final state with the labels, so
  that theorems can speak of the partition at termination; \<open>farthest_neighbor\<close> is the
  value the C function returns.\<close>

definition farthest_neighbor_run ::
    "nat \<Rightarrow> (int \<Rightarrow> real) \<Rightarrow> int list \<Rightarrow> real \<Rightarrow> fault + (state \<times> int option list)" where
  "farthest_neighbor_run n dists mlg thresh =
     (case fill_clusters n mlg 0 (alloc n) of
        Inl e \<Rightarrow> Inl e
      | Inr s0 \<Rightarrow>
          (case main_loop n dists thresh (- 1) s0 of
             Inl e \<Rightarrow> Inl e
           | Inr s1 \<Rightarrow>
               (case fill_return n (cluster_matrix s1) 0 (replicate n None) of
                  Inl e \<Rightarrow> Inl e
                | Inr rout \<Rightarrow> Inr (s1, rout))))"

definition farthest_neighbor ::
    "nat \<Rightarrow> (int \<Rightarrow> real) \<Rightarrow> int list \<Rightarrow> real \<Rightarrow> fault + int option list" where
  "farthest_neighbor n dists mlg thresh = map_sum id snd (farthest_neighbor_run n dists mlg thresh)"

section \<open>The notions of the specification\<close>

text \<open>The members of slot \<open>r\<close> are the cells of row \<open>r\<close> before the first \<open>-1\<close>, as the
  loops at lines 157, 161 and 205 read them.\<close>

definition members :: "int list list \<Rightarrow> nat \<Rightarrow> nat list" where
  "members cm r = map nat (takeWhile (\<lambda>x. x \<noteq> - 1) (cm ! r))"

text \<open>The complete-linkage distance of two member lists, in the words of the
  specification: the maximum of \<open>DistanceMatrix[u][v]\<close> over \<open>u\<close> in the first and \<open>v\<close> in
  the second, the cell \<open>[u][v]\<close> being the one at the flat index \<open>u * n + v\<close>.\<close>

definition complete_linkage :: "nat \<Rightarrow> (int \<Rightarrow> real) \<Rightarrow> nat list \<Rightarrow> nat list \<Rightarrow> real" where
  "complete_linkage n dists us vs =
     Max (set (concat (map (\<lambda>u. map (\<lambda>v. dists (int u * int n + int v)) vs) us)))"

text \<open>The inputs of the specification: \<open>n\<close> labels, each in \<open>[1, n]\<close>, and a matrix whose
  cells off the diagonal are not negative (the diagonal is not read).\<close>

definition labels_in_range :: "nat \<Rightarrow> int list \<Rightarrow> bool" where
  "labels_in_range n mlg \<longleftrightarrow> length mlg = n \<and> list_all (\<lambda>l. 1 \<le> l \<and> l \<le> int n) mlg"

definition nonneg :: "nat \<Rightarrow> (int \<Rightarrow> real) \<Rightarrow> bool" where
  "nonneg n dists \<longleftrightarrow> (\<forall>u<n. \<forall>v<n. u \<noteq> v \<longrightarrow> 0 \<le> dists (int u * int n + int v))"

text \<open>The states of a run. \<open>loop_step\<close> is one pass through the body of the main loop,
  from the value of \<open>min_cluster_distance\<close> and the state at line 137 to those at the next
  arrival at line 137; a pair is reachable if the loop head is reached with it, from the
  state that the initialization leaves and \<open>min_cluster_distance = -1\<close>.\<close>

definition loop_step :: "nat \<Rightarrow> (int \<Rightarrow> real) \<Rightarrow> real \<Rightarrow> real \<times> state \<Rightarrow> real \<times> state \<Rightarrow> bool" where
  "loop_step n dists thresh v v' \<longleftrightarrow>
     fst v < thresh \<and> 1 < num_clusters (snd v) \<and> iteration n dists thresh (snd v) = Inr v'"

definition reachable :: "nat \<Rightarrow> (int \<Rightarrow> real) \<Rightarrow> int list \<Rightarrow> real \<Rightarrow> real \<times> state \<Rightarrow> bool" where
  "reachable n dists mlg thresh v \<longleftrightarrow>
     (\<exists>s0. fill_clusters n mlg 0 (alloc n) = Inr s0 \<and> rtranclp (loop_step n dists thresh) (- 1, s0) v)"

text \<open>The clusters of a labeling, and a labeling that is stable: no two distinct
  non-empty clusters have a complete-linkage distance below the threshold.\<close>

definition cluster_of :: "nat \<Rightarrow> int list \<Rightarrow> nat \<Rightarrow> nat list" where
  "cluster_of n mlg r = filter (\<lambda>e. mlg ! e = int r + 1) [0..<n]"

definition stable :: "nat \<Rightarrow> (int \<Rightarrow> real) \<Rightarrow> real \<Rightarrow> int list \<Rightarrow> bool" where
  "stable n dists thresh mlg \<longleftrightarrow>
     list_all (\<lambda>a. list_all (\<lambda>b.
         a = b \<or> cluster_of n mlg a = [] \<or> cluster_of n mlg b = []
         \<or> thresh \<le> complete_linkage n dists (cluster_of n mlg a) (cluster_of n mlg b))
       [0..<n]) [0..<n]"

section \<open>Inputs of the examples\<close>

definition example_dists :: "int \<Rightarrow> real" where
  \<comment> \<open>d(0,1) = 1, d(2,3) = 1, every other distance 5, the diagonal 0\<close>
  "example_dists k = [0, 1, 5, 5,  1, 0, 5, 5,  5, 5, 0, 1,  5, 5, 1, 0] ! nat k"

definition far_then_near :: "int \<Rightarrow> real" where
  \<comment> \<open>three entities: d(0,1) = 5, d(0,2) = 1, d(1,2) = 5\<close>
  "far_then_near k = [0, 5, 1,  5, 0, 5,  1, 5, 0] ! nat k"

definition tie_dists :: "int \<Rightarrow> real" where
  \<comment> \<open>three entities: d(0,1) = 5, d(0,2) = 1, d(1,2) = 1\<close>
  "tie_dists k = [0, 5, 1,  5, 0, 1,  1, 1, 0] ! nat k"

section \<open>Partitions as lists of member lists\<close>

text \<open>The definitions of this section serve the proofs. A partition is a list \<open>ms\<close> of
  \<open>n\<close> member lists; \<open>state_of n ms\<close> is the state of the program that stores it.\<close>

definition row_of :: "nat \<Rightarrow> nat list \<Rightarrow> int list" where
  "row_of n ms = map int ms @ replicate (n - length ms) (- 1)"

definition state_of :: "nat \<Rightarrow> nat list list \<Rightarrow> state" where
  "state_of n ms = \<lparr>cluster_matrix = map (row_of n) ms, cluster_size = map length ms,
                     num_clusters = int (length (filter (\<lambda>m. m \<noteq> []) ms))\<rparr>"

definition parts :: "nat \<Rightarrow> nat list list \<Rightarrow> bool" where
  "parts n ms \<longleftrightarrow>
     length ms = n \<and>
     (\<forall>r<n. distinct (ms ! r) \<and> (\<forall>e\<in>set (ms ! r). e < n)) \<and>
     (\<forall>r<n. \<forall>r'<n. r \<noteq> r' \<longrightarrow> set (ms ! r) \<inter> set (ms ! r') = {}) \<and>
     (\<forall>e<n. \<exists>r<n. e \<in> set (ms ! r))"

definition bounded :: "nat \<Rightarrow> nat list list \<Rightarrow> bool" where
  "bounded n ms \<longleftrightarrow> length ms = n \<and> (\<forall>r<n. length (ms ! r) \<le> n \<and> (\<forall>e\<in>set (ms ! r). e < n))"

definition lowest_label :: "nat \<Rightarrow> int list \<Rightarrow> nat list list \<Rightarrow> bool" where
  "lowest_label n mlg ms \<longleftrightarrow>
     (\<forall>r<n. ms ! r \<noteq> [] \<longrightarrow>
        (\<forall>e\<in>set (ms ! r). int r + 1 \<le> mlg ! e) \<and> (\<exists>e\<in>set (ms ! r). mlg ! e = int r + 1))"

definition stands_for :: "nat \<Rightarrow> int list \<Rightarrow> state \<Rightarrow> nat list list \<Rightarrow> bool" where
  "stands_for n mlg s ms \<longleftrightarrow> s = state_of n ms \<and> parts n ms \<and> lowest_label n mlg ms"

definition init_parts :: "nat \<Rightarrow> int list \<Rightarrow> nat \<Rightarrow> nat list list" where
  "init_parts n mlg i = map (\<lambda>r. filter (\<lambda>e. mlg ! e = int r + 1) [0..<i]) [0..<n]"

definition labels_ok_from :: "nat \<Rightarrow> int list \<Rightarrow> nat \<Rightarrow> bool" where
  "labels_ok_from n mlg i \<longleftrightarrow> (\<forall>e. i \<le> e \<and> e < n \<longrightarrow> e < length mlg \<and> 1 \<le> mlg ! e \<and> mlg ! e \<le> int n)"

definition merge_parts :: "nat \<Rightarrow> nat \<Rightarrow> nat list list \<Rightarrow> nat list list" where
  "merge_parts a b ms = ms[a := ms ! a @ ms ! b, b := []]"

definition merging :: "nat \<Rightarrow> nat list list \<Rightarrow> nat \<Rightarrow> nat \<Rightarrow> nat \<Rightarrow> int \<Rightarrow> state" where
  "merging n ms a b i nc =
     \<lparr>cluster_matrix = (map (row_of n) ms)
        [a := row_of n (ms ! a @ take i (ms ! b)),
         b := replicate i (- 1) @ map int (drop i (ms ! b)) @ replicate (n - length (ms ! b)) (- 1)],
      cluster_size = (map length ms)[a := length (ms ! a) + i],
      num_clusters = nc\<rparr>"

definition pair_max :: "nat \<Rightarrow> (int \<Rightarrow> real) \<Rightarrow> nat list \<Rightarrow> nat list \<Rightarrow> real \<Rightarrow> real" where
  "pair_max n dists us vs t =
     fold (\<lambda>u. fold (\<lambda>v t. max t (dists (int u * int n + int v))) vs) us t"

definition pair_dists :: "nat \<Rightarrow> (int \<Rightarrow> real) \<Rightarrow> nat list \<Rightarrow> nat list \<Rightarrow> real list" where
  "pair_dists n dists us vs = concat (map (\<lambda>u. map (\<lambda>v. dists (int u * int n + int v)) vs) us)"

definition selected :: "nat \<Rightarrow> (int \<Rightarrow> real) \<Rightarrow> nat list list \<Rightarrow> real \<Rightarrow> int \<times> int \<Rightarrow> bool" where
  "selected n dists ms m cp \<longleftrightarrow>
     (m = - 1 \<and> cp = (- 1, - 1)) \<or>
     (\<exists>a b. cp = (int a, int b) \<and> a < b \<and> b < n \<and> ms ! a \<noteq> [] \<and> ms ! b \<noteq> []
            \<and> m = complete_linkage n dists (ms ! a) (ms ! b) \<and> 0 \<le> m)"

definition j_inv :: "nat \<Rightarrow> (int \<Rightarrow> real) \<Rightarrow> nat list list \<Rightarrow> nat \<Rightarrow> nat \<Rightarrow> bool \<Rightarrow>
    real \<times> real \<times> int \<times> int \<Rightarrow> bool" where
  "j_inv n dists ms i j f v \<longleftrightarrow> (case v of (t, m, cp) \<Rightarrow>
     selected n dists ms m cp \<and> (f \<longrightarrow> 0 \<le> m) \<and>
     ((t = - 1 \<and> (ms ! i = [] \<or> (\<forall>j'. i < j' \<and> j' < j \<longrightarrow> ms ! j' = []))) \<or>
      (0 \<le> t \<and> 0 \<le> m \<and> m \<le> t)))"

definition i_inv :: "nat \<Rightarrow> (int \<Rightarrow> real) \<Rightarrow> nat list list \<Rightarrow> nat \<Rightarrow> real \<times> int \<times> int \<Rightarrow> bool" where
  "i_inv n dists ms i v \<longleftrightarrow> (case v of (m, cp) \<Rightarrow>
     selected n dists ms m cp \<and>
     ((\<exists>a b. a < i \<and> a < b \<and> b < n \<and> ms ! a \<noteq> [] \<and> ms ! b \<noteq> []) \<longrightarrow> 0 \<le> m))"

section \<open>What an iteration does to \<open>num_clusters\<close>\<close>

lemma num_clusters_move_member [simp]:
  "num_clusters (move_member a b i s) = num_clusters s"
  by (simp add: move_member_def Let_def)

lemma merge_loop_num_clusters:
  "merge_loop n cp i s = Inr s' \<Longrightarrow> num_clusters s' = num_clusters s"
proof (induction n cp i s rule: merge_loop.induct)
  case (1 n closest_pair i s)
  show ?case
  proof (cases "i < cluster_size s ! nat (snd closest_pair)")
    case True
    from "1.prems" True have ok1: "\<not> (snd closest_pair < 0 \<or> int n \<le> snd closest_pair)"
      and ok2: "\<not> (fst closest_pair < 0 \<or> int n \<le> fst closest_pair
            \<or> n \<le> cluster_size s ! nat (fst closest_pair) \<or> n \<le> i)"
      by (subst (asm) merge_loop.simps, simp split: if_splits)+
    from "1.prems" True ok1 ok2
    have "merge_loop n closest_pair (i + 1)
            (move_member (nat (fst closest_pair)) (nat (snd closest_pair)) i s) = Inr s'"
      by (subst (asm) merge_loop.simps) simp
    from "1.IH"[OF ok1 True ok2 this] show ?thesis by simp
  next
    case False
    with "1.prems" show ?thesis
      by (subst (asm) merge_loop.simps) (simp split: if_splits)
  qed
qed

lemma iteration_progress:
  assumes "iteration n dists thresh s = Inr (m, s')"
  shows "(m < thresh \<and> num_clusters s' = num_clusters s - 1) \<or> (\<not> m < thresh \<and> s' = s)"
  using assms
  by (auto simp: iteration_def split: prod.splits if_splits sum.splits
           dest: merge_loop_num_clusters)

section \<open>The scan\<close>

lemma length_row_of [simp]: "length ms \<le> n \<Longrightarrow> length (row_of n ms) = n"
  by (simp add: row_of_def)

lemma row_of_nth_member: "l < length ms \<Longrightarrow> row_of n ms ! l = int (ms ! l)"
  by (simp add: row_of_def nth_append)

lemma row_of_nth_free: "length ms \<le> l \<Longrightarrow> l < n \<Longrightarrow> row_of n ms ! l = - 1"
  by (simp add: row_of_def nth_append)

lemma takeWhile_members:
  "takeWhile (\<lambda>x. x \<noteq> - 1) (map int ms @ replicate k (- 1)) = map int ms"
  by (induction ms) (cases k, auto)

lemma members_row_of: "takeWhile (\<lambda>x. x \<noteq> - 1) (row_of n ms) = map int ms"
  by (simp add: row_of_def takeWhile_members)

lemma l_loop_fold:
  assumes "length vs \<le> n" "l \<le> length vs"
  shows "l_loop n dists (row_of n vs) kv l t =
         fold (\<lambda>v t. max t (dists (kv * int n + int v))) (drop l vs) t"
  using assms
proof (induction "length vs - l" arbitrary: l t)
  case 0
  then have "l = length vs" by simp
  then show ?case using 0
    by (subst l_loop.simps) (auto simp: row_of_nth_free)
next
  case (Suc k)
  then have l: "l < length vs" "l < n" by auto
  have d: "drop l vs = vs ! l # drop (Suc l) vs"
    using l by (simp add: Cons_nth_drop_Suc)
  have "k = length vs - Suc l" using Suc by simp
  from Suc(1)[OF this Suc(3)] l have IH: "\<And>t. l_loop n dists (row_of n vs) kv (Suc l) t =
      fold (\<lambda>v t. max t (dists (kv * int n + int v))) (drop (Suc l) vs) t" by simp
  show ?case
    using l by (subst l_loop.simps) (simp add: row_of_nth_member d IH Let_def max_def)
qed

lemma k_loop_fold:
  assumes "length us \<le> n" "length vs \<le> n" "k \<le> length us"
  shows "k_loop n dists (row_of n us) (row_of n vs) k t = pair_max n dists (drop k us) vs t"
  using assms
proof (induction "length us - k" arbitrary: k t)
  case 0
  then have "k = length us" by simp
  then show ?case using 0
    by (subst k_loop.simps) (auto simp: row_of_nth_free pair_max_def)
next
  case (Suc m)
  then have l: "k < length us" "k < n" by auto
  have d: "drop k us = us ! k # drop (Suc k) us"
    using l by (simp add: Cons_nth_drop_Suc)
  have "m = length us - Suc k" using Suc by simp
  from Suc(1)[OF this Suc(3) Suc(4)] l have IH: "\<And>t. k_loop n dists (row_of n us) (row_of n vs) (Suc k) t =
      pair_max n dists (drop (Suc k) us) vs t" by simp
  show ?case
    using l Suc(4) by (subst k_loop.simps) (simp add: row_of_nth_member d IH l_loop_fold pair_max_def)
qed

lemma Max_insert_max:
  assumes "finite B"
  shows "Max (insert (max t a) B) = Max (insert t (insert a B))"
proof (cases "B = {}")
  case True then show ?thesis by (simp add: max.commute)
next
  case False
  with assms show ?thesis by (simp add: max.assoc)
qed

lemma fold_max_Max:
  "fold (\<lambda>y t. max t y) ys t = Max (insert t (set ys))"
proof (induction ys arbitrary: t)
  case Nil then show ?case by simp
next
  case (Cons y ys)
  then show ?case by (simp add: Max_insert_max)
qed

lemma pair_max_Max:
  "pair_max n dists us vs t = Max (insert t (set (pair_dists n dists us vs)))"
proof -
  have "pair_max n dists us vs t = fold (\<lambda>y t. max t y) (pair_dists n dists us vs) t"
    by (induction us arbitrary: t) (simp_all add: pair_max_def pair_dists_def fold_map comp_def)
  then show ?thesis by (simp add: fold_max_Max)
qed

lemma pair_dists_empty: "pair_dists n dists us vs = [] \<longleftrightarrow> us = [] \<or> vs = []"
  by (induction us) (auto simp: pair_dists_def)

lemma pair_max_none: "us = [] \<or> vs = [] \<Longrightarrow> pair_max n dists us vs t = t"
  using pair_dists_empty[of n dists us vs] by (simp add: pair_max_Max)

lemma pair_max_some:
  "us \<noteq> [] \<Longrightarrow> vs \<noteq> [] \<Longrightarrow>
   pair_max n dists us vs t = max t (complete_linkage n dists us vs)"
  using pair_dists_empty[of n dists us vs]
  by (simp add: pair_max_Max complete_linkage_def pair_dists_def[symmetric])

lemma parts_length: "parts n ms \<Longrightarrow> length ms = n"
  by (simp add: parts_def)

lemma parts_pair_size:
  assumes "parts n ms" "a < n" "b < n" "a \<noteq> b"
  shows "length (ms ! a) + length (ms ! b) \<le> n"
proof -
  from assms have d: "distinct (ms ! a @ ms ! b)"
    unfolding parts_def by (metis distinct_append)
  from assms have "set (ms ! a @ ms ! b) \<subseteq> {0..<n}"
    unfolding parts_def by auto
  then have "card (set (ms ! a @ ms ! b)) \<le> card {0..<n}"
    by (intro card_mono) auto
  with d show ?thesis by (simp add: distinct_card del: set_append)
qed

lemma parts_size:
  assumes "parts n ms" "r < n"
  shows "length (ms ! r) \<le> n"
proof -
  from assms have "distinct (ms ! r)" "set (ms ! r) \<subseteq> {0..<n}"
    unfolding parts_def by auto
  then have "card (set (ms ! r)) \<le> card {0..<n}" by (intro card_mono) auto
  with \<open>distinct (ms ! r)\<close> show ?thesis by (simp add: distinct_card)
qed

lemma parts_bounded: "parts n ms \<Longrightarrow> bounded n ms"
  using parts_size by (auto simp: bounded_def parts_def)

lemma complete_linkage_pair_dists:
  "complete_linkage n dists us vs = Max (set (pair_dists n dists us vs))"
  by (simp add: complete_linkage_def pair_dists_def)

lemma pair_dists_nonneg:
  assumes "nonneg n dists" "\<forall>u\<in>set us. u < n" "\<forall>v\<in>set vs. v < n" "set us \<inter> set vs = {}"
  shows "\<forall>y\<in>set (pair_dists n dists us vs). 0 \<le> y"
proof
  fix y assume "y \<in> set (pair_dists n dists us vs)"
  then obtain u v where uv: "u \<in> set us" "v \<in> set vs" "y = dists (int u * int n + int v)"
    by (auto simp: pair_dists_def)
  with assms(4) have "u \<noteq> v" by auto
  with uv assms(1,2,3) show "0 \<le> y" by (simp add: nonneg_def)
qed

lemma complete_linkage_nonneg:
  assumes "nonneg n dists" "us \<noteq> []" "vs \<noteq> []" "\<forall>u\<in>set us. u < n" "\<forall>v\<in>set vs. v < n"
    and "set us \<inter> set vs = {}"
  shows "0 \<le> complete_linkage n dists us vs"
proof -
  have ne: "pair_dists n dists us vs \<noteq> []" using assms(2,3) by (simp add: pair_dists_empty)
  then have "Max (set (pair_dists n dists us vs)) \<in> set (pair_dists n dists us vs)"
    by (intro Max_in) auto
  with pair_dists_nonneg[OF assms(1,4,5,6)] show ?thesis
    unfolding complete_linkage_pair_dists by blast
qed

lemma j_loop_step:
  assumes p: "parts n ms" and nn: "nonneg n dists" and i: "i < n" and ij: "i < j" and j: "j < n"
    and inv: "j_inv n dists ms i j f (t, m, cp)"
  shows "\<exists>v. j_loop n dists (map (row_of n) ms) i j (t, m, cp) =
              j_loop n dists (map (row_of n) ms) i (j + 1) v \<and> j_inv n dists ms i (j + 1) f v"
proof -
  let ?cm = "map (row_of n) ms"
  let ?t' = "pair_max n dists (ms ! i) (ms ! j) t"
  from parts_bounded[OF p] i j
  have len: "length ms = n" "length (ms ! i) \<le> n" "length (ms ! j) \<le> n"
    and mem: "\<forall>e\<in>set (ms ! i). e < n" "\<forall>e\<in>set (ms ! j). e < n"
    by (auto simp: bounded_def)
  from p i j ij have dis: "set (ms ! i) \<inter> set (ms ! j) = {}"
    by (simp add: parts_def)
  have k: "k_loop n dists (?cm ! i) (?cm ! j) 0 t = ?t'"
    using len i j by (simp add: k_loop_fold)
  from inv have sel: "selected n dists ms m cp" and f: "f \<longrightarrow> 0 \<le> m"
    and cases: "(t = - 1 \<and> (ms ! i = [] \<or> (\<forall>j'. i < j' \<and> j' < j \<longrightarrow> ms ! j' = []))) \<or>
      (0 \<le> t \<and> 0 \<le> m \<and> m \<le> t)"
    by (auto simp: j_inv_def)
  show ?thesis
  proof (cases "ms ! i = [] \<or> ms ! j = []")
    case True
    then have t': "?t' = t" by (rule pair_max_none)
    from cases show ?thesis
    proof
      assume c: "t = - 1 \<and> (ms ! i = [] \<or> (\<forall>j'. i < j' \<and> j' < j \<longrightarrow> ms ! j' = []))"
      then have "j_loop n dists ?cm i j (t, m, cp) = j_loop n dists ?cm i (j + 1) (t, m, cp)"
        using j k t' by (subst j_loop.simps) (simp add: Let_def)
      moreover have "j_inv n dists ms i (j + 1) f (t, m, cp)"
        using sel f c True by (auto simp: j_inv_def less_Suc_eq)
      ultimately show ?thesis by blast
    next
      assume c: "0 \<le> t \<and> 0 \<le> m \<and> m \<le> t"
      then have "j_loop n dists ?cm i j (t, m, cp) = j_loop n dists ?cm i (j + 1) (t, m, cp)"
        using j k t' by (subst j_loop.simps) (simp add: Let_def)
      moreover have "j_inv n dists ms i (j + 1) f (t, m, cp)"
        using sel f c by (auto simp: j_inv_def)
      ultimately show ?thesis by blast
    qed
  next
    case False
    then have ne: "ms ! i \<noteq> []" "ms ! j \<noteq> []" by auto
    let ?d = "complete_linkage n dists (ms ! i) (ms ! j)"
    have d0: "0 \<le> ?d" using nn ne mem dis by (rule complete_linkage_nonneg)
    have t': "?t' = max t ?d" using ne by (rule pair_max_some)
    from cases show ?thesis
    proof
      assume c: "t = - 1 \<and> (ms ! i = [] \<or> (\<forall>j'. i < j' \<and> j' < j \<longrightarrow> ms ! j' = []))"
      with d0 t' have td: "?t' = ?d" by (simp add: max_def)
      show ?thesis
      proof (cases "?d < m \<or> m < 0")
        case True
        then have "j_loop n dists ?cm i j (t, m, cp) =
                   j_loop n dists ?cm i (j + 1) (?d, ?d, (int i, int j))"
          using j k td d0 by (subst j_loop.simps) (simp add: Let_def)
        moreover have "selected n dists ms ?d (int i, int j)"
          using ne d0 ij j by (auto simp: selected_def)
        then have "j_inv n dists ms i (j + 1) f (?d, ?d, (int i, int j))"
          using d0 by (simp add: j_inv_def)
        ultimately show ?thesis by blast
      next
        case False
        then have "j_loop n dists ?cm i j (t, m, cp) = j_loop n dists ?cm i (j + 1) (?d, m, cp)"
          using j k td d0 by (subst j_loop.simps) (simp add: Let_def)
        moreover have "j_inv n dists ms i (j + 1) f (?d, m, cp)"
          using sel f d0 False by (auto simp: j_inv_def)
        ultimately show ?thesis by blast
      qed
    next
      assume c: "0 \<le> t \<and> 0 \<le> m \<and> m \<le> t"
      then have ge: "m \<le> ?t'" "0 \<le> ?t'" using t' by (auto simp: max_def)
      then have "j_loop n dists ?cm i j (t, m, cp) = j_loop n dists ?cm i (j + 1) (?t', m, cp)"
        using j k c by (subst j_loop.simps) (simp add: Let_def)
      moreover have "j_inv n dists ms i (j + 1) f (?t', m, cp)"
        using sel f c ge by (auto simp: j_inv_def)
      ultimately show ?thesis by blast
    qed
  qed
qed

lemma j_loop_inv:
  assumes "parts n ms" "nonneg n dists" "i < n" "i < j" "j \<le> n"
    and "j_inv n dists ms i j f v"
  shows "j_inv n dists ms i n f (j_loop n dists (map (row_of n) ms) i j v)"
  using assms(4-)
proof (induction "n - j" arbitrary: j v)
  case 0
  then have "j = n" by simp
  obtain t m cp where v: "v = (t, m, cp)" by (cases v) auto
  show ?case using 0 \<open>j = n\<close> unfolding v by (subst j_loop.simps) simp
next
  case (Suc k)
  then have j: "j < n" by simp
  obtain t m cp where v: "v = (t, m, cp)" by (cases v) auto
  from j_loop_step[OF assms(1,2,3) Suc(3) j Suc(5)[unfolded v]]
  obtain v' where eq: "j_loop n dists (map (row_of n) ms) i j (t, m, cp) =
              j_loop n dists (map (row_of n) ms) i (j + 1) v'" and inv: "j_inv n dists ms i (j + 1) f v'"
    by blast
  have "j_inv n dists ms i n f (j_loop n dists (map (row_of n) ms) i (j + 1) v')"
    using Suc(2) Suc(3) j inv by (intro Suc(1)) auto
  then show ?case by (simp add: v eq)
qed

lemma i_loop_inv:
  assumes "parts n ms" "nonneg n dists" "i \<le> n" "i_inv n dists ms i v"
  shows "i_inv n dists ms n (i_loop n dists (map (row_of n) ms) i v)"
  using assms(3-)
proof (induction "n - i" arbitrary: i v)
  case 0
  then have "i = n" by simp
  obtain m cp where v: "v = (m, cp)" by (cases v) auto
  show ?case using 0 \<open>i = n\<close> unfolding v by (subst i_loop.simps) simp
next
  case (Suc k)
  then have i: "i < n" by simp
  obtain m cp where v: "v = (m, cp)" by (cases v) auto
  let ?f = "\<exists>a b. a < i \<and> a < b \<and> b < n \<and> ms ! a \<noteq> [] \<and> ms ! b \<noteq> []"
  let ?r = "j_loop n dists (map (row_of n) ms) i (i + 1) (- 1, m, cp)"
  have "j_inv n dists ms i (i + 1) ?f (- 1, m, cp)"
    using Suc(4) by (auto simp: j_inv_def i_inv_def v)
  with assms(1,2) i have r: "j_inv n dists ms i n ?f ?r"
    by (intro j_loop_inv) auto
  obtain t' m' cp' where r': "?r = (t', m', cp')" by (cases ?r) auto
  have sel': "selected n dists ms m' cp'" using r unfolding r' j_inv_def by simp
  have pos: "0 \<le> m'" if ab: "a < Suc i" "a < b" "b < n" "ms ! a \<noteq> []" "ms ! b \<noteq> []" for a b
  proof (cases "a < i")
    case True
    with ab have ?f by blast
    with r show ?thesis unfolding r' j_inv_def by simp
  next
    case False
    with ab have "a = i" by simp
    with ab r show ?thesis unfolding r' j_inv_def by auto
  qed
  have "i_inv n dists ms (i + 1) (m', cp')"
    unfolding i_inv_def using sel' pos by auto
  then have "i_inv n dists ms n (i_loop n dists (map (row_of n) ms) (i + 1) (m', cp'))"
    using Suc(2) i by (intro Suc(1)) auto
  moreover have "i_loop n dists (map (row_of n) ms) i (m, cp) =
                 i_loop n dists (map (row_of n) ms) (i + 1) (m', cp')"
    using i r' by (subst i_loop.simps) simp
  ultimately show ?case by (simp add: v)
qed

lemma scan_selected:
  assumes "parts n ms" "nonneg n dists"
  shows "selected n dists ms (fst (scan n dists (map (row_of n) ms))) (snd (scan n dists (map (row_of n) ms)))"
    and "a < b \<Longrightarrow> b < n \<Longrightarrow> ms ! a \<noteq> [] \<Longrightarrow> ms ! b \<noteq> [] \<Longrightarrow> 0 \<le> fst (scan n dists (map (row_of n) ms))"
proof -
  have "i_inv n dists ms 0 (- 1, (- 1, - 1))" by (simp add: i_inv_def selected_def)
  with assms have *: "i_inv n dists ms n (scan n dists (map (row_of n) ms))"
    unfolding scan_def by (intro i_loop_inv) auto
  then show "selected n dists ms (fst (scan n dists (map (row_of n) ms))) (snd (scan n dists (map (row_of n) ms)))"
    by (auto simp: i_inv_def split: prod.splits)
  show "0 \<le> fst (scan n dists (map (row_of n) ms))" if "a < b" "b < n" "ms ! a \<noteq> []" "ms ! b \<noteq> []"
  proof -
    from that have "\<exists>a b. a < n \<and> a < b \<and> b < n \<and> ms ! a \<noteq> [] \<and> ms ! b \<noteq> []"
      by (intro exI[of _ a] exI[of _ b]) simp
    with * show ?thesis unfolding i_inv_def by (simp split: prod.splits)
  qed
qed

section \<open>The initialization\<close>

lemma row_of_snoc:
  "length m < n \<Longrightarrow> (row_of n m)[length m := int i] = row_of n (m @ [i])"
proof -
  assume "length m < n"
  then obtain k where k: "n - length m = Suc k" by (cases "n - length m") auto
  then have "n - Suc (length m) = k" by simp
  with k show ?thesis by (simp add: row_of_def list_update_append)
qed

lemma length_filter_update:
  "r < length xs \<Longrightarrow>
   int (length (filter P (xs[r := y]))) =
   int (length (filter P xs)) - (if P (xs ! r) then 1 else 0) + (if P y then 1 else 0)"
proof (induction xs arbitrary: r)
  case Nil then show ?case by simp
next
  case (Cons x xs)
  show ?case
  proof (cases r)
    case 0 then show ?thesis by simp
  next
    case (Suc r')
    with Cons.prems have "r' < length xs" by simp
    from Cons.IH[OF this] Suc show ?thesis by (simp split: if_splits)
  qed
qed

lemma place_state_of:
  assumes "length ms = n" "r < n" "length (ms ! r) < n"
  shows "place i r (state_of n ms) = state_of n (ms[r := ms ! r @ [i]])"
proof -
  have cm: "(map (row_of n) ms)[r := (map (row_of n) ms ! r)[map length ms ! r := int i]] =
            map (row_of n) (ms[r := ms ! r @ [i]])"
    using assms by (simp add: map_update row_of_snoc)
  have cs: "(map length ms)[r := map length ms ! r + 1] = map length (ms[r := ms ! r @ [i]])"
    using assms by (simp add: map_update)
  have nc: "int (length (filter (\<lambda>m. m \<noteq> []) (ms[r := ms ! r @ [i]]))) =
            int (length (filter (\<lambda>m. m \<noteq> []) ms)) + (if ms ! r = [] then 1 else 0)"
    using assms by (simp add: length_filter_update)
  show ?thesis
    using assms cm cs nc unfolding place_def state_of_def Let_def
    by (auto simp del: map_update)
qed

lemma length_init_parts [simp]: "length (init_parts n mlg i) = n"
  by (simp add: init_parts_def)

lemma nth_init_parts:
  "r < n \<Longrightarrow> init_parts n mlg i ! r = filter (\<lambda>e. mlg ! e = int r + 1) [0..<i]"
  by (simp add: init_parts_def)

lemma length_nth_init_parts: "r < n \<Longrightarrow> length (init_parts n mlg i ! r) \<le> i"
  using length_filter_le[of "\<lambda>e. mlg ! e = int r + 1" "[0..<i]"] by (simp add: nth_init_parts)

lemma init_parts_Suc:
  assumes "1 \<le> mlg ! i" "mlg ! i \<le> int n"
  shows "init_parts n mlg (Suc i) =
         (init_parts n mlg i)[nat (mlg ! i - 1) := init_parts n mlg i ! nat (mlg ! i - 1) @ [i]]"
proof (rule nth_equalityI)
  show "length (init_parts n mlg (Suc i)) =
        length ((init_parts n mlg i)[nat (mlg ! i - 1) := init_parts n mlg i ! nat (mlg ! i - 1) @ [i]])"
    by simp
next
  fix r assume "r < length (init_parts n mlg (Suc i))"
  then have r: "r < n" by simp
  from assms have "nat (mlg ! i - 1) < n" by auto
  with r assms show "init_parts n mlg (Suc i) ! r =
      (init_parts n mlg i)[nat (mlg ! i - 1) := init_parts n mlg i ! nat (mlg ! i - 1) @ [i]] ! r"
    by (cases "r = nat (mlg ! i - 1)") (auto simp: nth_init_parts nth_list_update)
qed

lemma alloc_state_of: "alloc n = state_of n (init_parts n mlg 0)"
proof -
  have "init_parts n mlg 0 = replicate n []"
    by (simp add: init_parts_def map_replicate_const)
  then show ?thesis
    by (simp add: alloc_def state_of_def row_of_def)
qed

lemma fill_clusters_init_parts:
  assumes "i \<le> n"
  shows "fill_clusters n mlg i (state_of n (init_parts n mlg i)) =
         (if labels_ok_from n mlg i then Inr (state_of n (init_parts n mlg n)) else Inl OutOfBounds)"
  using assms
proof (induction "n - i" arbitrary: i)
  case 0
  then have "i = n" by simp
  then show ?case by (subst fill_clusters.simps) (simp add: labels_ok_from_def)
next
  case (Suc k)
  then have i: "i < n" by simp
  let ?r = "nat (mlg ! i - 1)"
  show ?case
  proof (cases "i < length mlg \<and> 1 \<le> mlg ! i \<and> mlg ! i \<le> int n")
    case False
    then have "\<not> labels_ok_from n mlg i" using i by (auto simp: labels_ok_from_def)
    with False i show ?thesis by (subst fill_clusters.simps) (auto simp: Let_def)
  next
    case True
    then have r: "?r < n" by auto
    have len: "length (init_parts n mlg i ! ?r) < n"
      using length_nth_init_parts[OF r, of mlg i] i by simp
    have step: "place i ?r (state_of n (init_parts n mlg i)) = state_of n (init_parts n mlg (Suc i))"
      using True r len by (simp add: place_state_of init_parts_Suc)
    have ok: "labels_ok_from n mlg i \<longleftrightarrow> labels_ok_from n mlg (Suc i)"
    proof
      assume "labels_ok_from n mlg i"
      then show "labels_ok_from n mlg (Suc i)" by (simp add: labels_ok_from_def)
    next
      assume a: "labels_ok_from n mlg (Suc i)"
      show "labels_ok_from n mlg i" unfolding labels_ok_from_def
      proof (intro allI impI)
        fix e assume "i \<le> e \<and> e < n"
        then consider "e = i" | "Suc i \<le> e" "e < n" by fastforce
        then show "e < length mlg \<and> 1 \<le> mlg ! e \<and> mlg ! e \<le> int n"
          using True a by cases (auto simp: labels_ok_from_def)
      qed
    qed
    have IH: "fill_clusters n mlg (Suc i) (state_of n (init_parts n mlg (Suc i))) =
         (if labels_ok_from n mlg (Suc i) then Inr (state_of n (init_parts n mlg n)) else Inl OutOfBounds)"
      using Suc(2) i by (intro Suc(1)) auto
    have size: "cluster_size (state_of n (init_parts n mlg i)) ! ?r < n"
      using len r by (simp add: state_of_def)
    show ?thesis
      using True i size
      by (subst fill_clusters.simps) (simp add: Let_def step IH ok)
  qed
qed

section \<open>One merge and one iteration\<close>

lemma merging_0:
  assumes "length ms = n" "a < n" "b < n" "a \<noteq> b"
  shows "merging n ms a b 0 (num_clusters (state_of n ms)) = state_of n ms"
proof -
  have "(map (row_of n) ms)[a := row_of n (ms ! a), b := row_of n (ms ! b)] = map (row_of n) ms"
    using assms by (intro nth_equalityI) (auto simp: nth_list_update)
  moreover have "(map length ms)[a := length (ms ! a)] = map length ms"
    using assms by (intro nth_equalityI) (auto simp: nth_list_update)
  ultimately show ?thesis
    by (simp add: merging_def state_of_def row_of_def)
qed

lemma move_member_merging:
  assumes len: "length ms = n" and a: "a < n" and b: "b < n" and ab: "a \<noteq> b"
    and i: "i < length (ms ! b)" and sz: "length (ms ! a) + length (ms ! b) \<le> n"
  shows "move_member a b i (merging n ms a b i nc) = merging n ms a b (Suc i) nc"
proof -
  let ?A = "ms ! a" and ?B = "ms ! b"
  let ?M = "map (row_of n) ms"
  let ?R = "replicate (n - length ?B) (- 1 :: int)"
  let ?ra = "row_of n (?A @ take i ?B)"
  let ?rb = "replicate i (- 1) @ map int (drop i ?B) @ ?R"
  let ?cm = "?M[a := ?ra, b := ?rb]"
  have cma: "?cm ! a = ?ra" using len a b ab by simp
  have cmb: "?cm ! b = ?rb" using len a b ab by simp
  have csa: "(map length ms)[a := length ?A + i] ! a = length (?A @ take i ?B)"
    using len a i by simp
  have bi: "?rb ! i = int (?B ! i)"
    using i by (simp add: nth_append)
  have lt: "length (?A @ take i ?B) < n" using i sz by simp
  have ra': "?ra[length (?A @ take i ?B) := int (?B ! i)] = row_of n (?A @ take (Suc i) ?B)"
    using row_of_snoc[OF lt, of "?B ! i"] i by (simp add: take_Suc_conv_app_nth)
  have d: "drop i ?B = ?B ! i # drop (Suc i) ?B" using i by (simp add: Cons_nth_drop_Suc)
  have rb': "?rb[i := - 1] = replicate (Suc i) (- 1) @ map int (drop (Suc i) ?B) @ ?R"
    by (simp add: d list_update_append replicate_append_same)
  have cm1: "?cm[a := (?cm ! a)[(map length ms)[a := length ?A + i] ! a := ?cm ! b ! i]] =
             ?M[a := row_of n (?A @ take (Suc i) ?B), b := ?rb]"
    unfolding cma cmb csa bi ra' using ab by (simp add: list_update_swap)
  have cm2: "(?M[a := row_of n (?A @ take (Suc i) ?B), b := ?rb])
               [b := (?M[a := row_of n (?A @ take (Suc i) ?B), b := ?rb] ! b)[i := - 1]] =
             ?M[a := row_of n (?A @ take (Suc i) ?B),
                b := replicate (Suc i) (- 1) @ map int (drop (Suc i) ?B) @ ?R]"
    using len b rb' by simp
  have cs: "((map length ms)[a := length ?A + i])[a := (map length ms)[a := length ?A + i] ! a + 1] =
            (map length ms)[a := length ?A + Suc i]"
    using len a by simp
  show ?thesis
    unfolding move_member_def merging_def Let_def state.simps
    unfolding cm1 cm2 cs by simp
qed

lemma merge_loop_merging:
  assumes len: "length ms = n" and a: "a < n" and b: "b < n" and ab: "a \<noteq> b"
    and sz: "length (ms ! a) + length (ms ! b) \<le> n" and i: "i \<le> length (ms ! b)"
  shows "merge_loop n (int a, int b) i (merging n ms a b i nc) =
         Inr (merging n ms a b (length (ms ! b)) nc)"
  using i
proof (induction "length (ms ! b) - i" arbitrary: i)
  case 0
  then have "i = length (ms ! b)" by simp
  then show ?case using len a b ab
    by (subst merge_loop.simps) (simp add: merging_def)
next
  case (Suc k)
  then have i: "i < length (ms ! b)" by simp
  have IH: "merge_loop n (int a, int b) (Suc i) (merging n ms a b (Suc i) nc) =
            Inr (merging n ms a b (length (ms ! b)) nc)"
    using Suc(2) i by (intro Suc(1)) auto
  have c1: "cluster_size (merging n ms a b i nc) ! b = length (ms ! b)"
    using len a b ab by (simp add: merging_def)
  have c2: "cluster_size (merging n ms a b i nc) ! a = length (ms ! a) + i"
    using len a b ab by (simp add: merging_def)
  from i sz have "length (ms ! a) + i < n" "i < n" by auto
  then show ?case
    using a b i c1 c2 IH move_member_merging[OF len a b ab i sz, of nc]
    by (subst merge_loop.simps) simp
qed

lemma merged_state_of:
  assumes len: "length ms = n" and a: "a < n" and b: "b < n" and ab: "a \<noteq> b"
    and ne: "ms ! a \<noteq> []" "ms ! b \<noteq> []" and sz: "length (ms ! a) + length (ms ! b) \<le> n"
  shows "(merging n ms a b (length (ms ! b)) (num_clusters (state_of n ms)))
           \<lparr>cluster_size := (cluster_size (merging n ms a b (length (ms ! b)) (num_clusters (state_of n ms))))[b := 0],
            num_clusters := num_clusters (state_of n ms) - 1\<rparr> = state_of n (merge_parts a b ms)"
proof -
  have cm: "(map (row_of n) ms)[a := row_of n (ms ! a @ ms ! b),
              b := replicate (length (ms ! b)) (- 1) @ replicate (n - length (ms ! b)) (- 1)] =
            map (row_of n) (merge_parts a b ms)"
    using sz by (simp add: merge_parts_def map_update row_of_def replicate_add[symmetric])
  have cs: "(map length ms)[a := length (ms ! a) + length (ms ! b), b := 0] =
            map length (merge_parts a b ms)"
    by (simp add: merge_parts_def map_update)
  have "int (length (filter (\<lambda>m. m \<noteq> []) (ms[a := ms ! a @ ms ! b]))) =
        int (length (filter (\<lambda>m. m \<noteq> []) ms))"
    using len a ne by (simp add: length_filter_update)
  moreover have "int (length (filter (\<lambda>m. m \<noteq> []) (ms[a := ms ! a @ ms ! b, b := []]))) =
        int (length (filter (\<lambda>m. m \<noteq> []) (ms[a := ms ! a @ ms ! b]))) - 1"
    using len a b ab ne by (subst length_filter_update) simp_all
  ultimately have nc: "int (length (filter (\<lambda>m. m \<noteq> []) (merge_parts a b ms))) =
        int (length (filter (\<lambda>m. m \<noteq> []) ms)) - 1"
    by (simp add: merge_parts_def)
  show ?thesis
    unfolding merging_def state_of_def state.simps
    using cm cs nc by simp
qed

lemma nth_merge_parts:
  assumes "length ms = n" "a < n" "b < n" "a \<noteq> b" "r < n"
  shows "merge_parts a b ms ! r = (if r = b then [] else if r = a then ms ! a @ ms ! b else ms ! r)"
  using assms by (simp add: merge_parts_def nth_list_update)

lemma parts_merge:
  assumes p: "parts n ms" and a: "a < n" and b: "b < n" and ab: "a \<noteq> b"
  shows "parts n (merge_parts a b ms)"
proof -
  from p have len: "length ms = n" by (simp add: parts_def)
  note nth = nth_merge_parts[OF len a b ab]
  have dis: "\<And>r r'. r < n \<Longrightarrow> r' < n \<Longrightarrow> r \<noteq> r' \<Longrightarrow> set (ms ! r) \<inter> set (ms ! r') = {}"
    using p by (simp add: parts_def)
  have dst: "\<And>r. r < n \<Longrightarrow> distinct (ms ! r)" and bnd: "\<And>r e. r < n \<Longrightarrow> e \<in> set (ms ! r) \<Longrightarrow> e < n"
    using p by (auto simp: parts_def)
  have cov: "\<And>e. e < n \<Longrightarrow> \<exists>r<n. e \<in> set (ms ! r)"
    using p by (simp add: parts_def)
  show ?thesis unfolding parts_def
  proof (intro conjI allI impI)
    show "length (merge_parts a b ms) = n" using len by (simp add: merge_parts_def)
  next
    fix r assume r: "r < n"
    show "distinct (merge_parts a b ms ! r)"
      using r dst[OF r] dst[OF a] dst[OF b] dis[OF a b ab] by (simp add: nth)
    show "\<forall>e\<in>set (merge_parts a b ms ! r). e < n"
      using r bnd[OF r] bnd[OF a] bnd[OF b] by (auto simp: nth)
  next
    fix r r' assume r: "r < n" "r' < n" "r \<noteq> r'"
    show "set (merge_parts a b ms ! r) \<inter> set (merge_parts a b ms ! r') = {}"
      using r dis[OF r] dis[of a r'] dis[of b r'] dis[of r a] dis[of r b] a b
      by (auto simp: nth)
  next
    fix e assume "e < n"
    from cov[OF this] obtain r where r: "r < n" "e \<in> set (ms ! r)" by blast
    show "\<exists>r<n. e \<in> set (merge_parts a b ms ! r)"
    proof (cases "r = b")
      case True
      with r a ab show ?thesis by (intro exI[of _ a]) (simp add: nth)
    next
      case False
      with r show ?thesis by (intro exI[of _ r]) (auto simp: nth)
    qed
  qed
qed

lemma parts_init:
  assumes "labels_ok_from n mlg 0"
  shows "parts n (init_parts n mlg n)"
  unfolding parts_def
proof (intro conjI allI impI)
  show "length (init_parts n mlg n) = n" by simp
next
  fix r assume "r < n"
  then show "distinct (init_parts n mlg n ! r)" "\<forall>e\<in>set (init_parts n mlg n ! r). e < n"
    by (simp_all add: nth_init_parts)
next
  fix r r' assume "r < n" "r' < n" "r \<noteq> r'"
  then show "set (init_parts n mlg n ! r) \<inter> set (init_parts n mlg n ! r') = {}"
    by (auto simp: nth_init_parts)
next
  fix e assume e: "e < n"
  with assms have "1 \<le> mlg ! e" "mlg ! e \<le> int n" by (auto simp: labels_ok_from_def)
  then have "nat (mlg ! e - 1) < n" "mlg ! e = int (nat (mlg ! e - 1)) + 1" by auto
  with e show "\<exists>r<n. e \<in> set (init_parts n mlg n ! r)"
    by (intro exI[of _ "nat (mlg ! e - 1)"]) (simp add: nth_init_parts)
qed

lemma two_clusters:
  assumes "1 < num_clusters (state_of n ms)" "length ms = n"
  shows "\<exists>a b. a < b \<and> b < n \<and> ms ! a \<noteq> [] \<and> ms ! b \<noteq> []"
proof -
  define S where "S = {i. i < length ms \<and> ms ! i \<noteq> []}"
  have fin: "finite S" by (simp add: S_def)
  from assms have "1 < card S"
    by (simp add: state_of_def length_filter_conv_card S_def)
  then have "\<not> card S \<le> Suc 0" by simp
  then obtain a b where "a \<in> S" "b \<in> S" "a \<noteq> b"
    using card_le_Suc0_iff_eq[OF fin] by blast
  then have ab: "a < n" "b < n" "ms ! a \<noteq> []" "ms ! b \<noteq> []" "a \<noteq> b"
    using assms(2) by (simp_all add: S_def)
  show ?thesis
  proof (cases "a < b")
    case True with ab show ?thesis by blast
  next
    case False
    with ab have "b < a" by simp
    with ab show ?thesis by blast
  qed
qed

lemma members_state_of:
  "r < length ms \<Longrightarrow> members (cluster_matrix (state_of n ms)) r = ms ! r"
  by (simp add: members_def state_of_def members_row_of comp_def)

text \<open>One iteration on a state that stands for a partition.\<close>

lemma iteration_state_of:
  assumes p: "parts n ms" and nn: "nonneg n dists" and nc: "1 < num_clusters (state_of n ms)"
  shows "\<exists>a b. a < b \<and> b < n \<and> ms ! a \<noteq> [] \<and> ms ! b \<noteq> [] \<and>
           scan n dists (cluster_matrix (state_of n ms)) =
             (complete_linkage n dists (ms ! a) (ms ! b), (int a, int b)) \<and>
           iteration n dists thresh (state_of n ms) =
             Inr (complete_linkage n dists (ms ! a) (ms ! b),
                  if complete_linkage n dists (ms ! a) (ms ! b) < thresh
                  then state_of n (merge_parts a b ms) else state_of n ms)"
proof -
  from p have len: "length ms = n" by (simp add: parts_def)
  have cm: "cluster_matrix (state_of n ms) = map (row_of n) ms" by (simp add: state_of_def)
  obtain m cp where sc: "scan n dists (map (row_of n) ms) = (m, cp)"
    by (cases "scan n dists (map (row_of n) ms)") auto
  from two_clusters[OF nc len] obtain a0 b0 where
    "a0 < b0" "b0 < n" "ms ! a0 \<noteq> []" "ms ! b0 \<noteq> []" by blast
  from scan_selected(2)[OF p nn this] have m0: "0 \<le> m" by (simp add: sc)
  from scan_selected(1)[OF p nn] have "selected n dists ms m cp" by (simp add: sc)
  with m0 obtain a b where ab: "cp = (int a, int b)" "a < b" "b < n" "ms ! a \<noteq> []" "ms ! b \<noteq> []"
      "m = complete_linkage n dists (ms ! a) (ms ! b)"
    by (auto simp: selected_def)
  then have a: "a < n" and neq: "a \<noteq> b" by auto
  have sz: "length (ms ! a) + length (ms ! b) \<le> n" by (rule parts_pair_size[OF p a ab(3) neq])
  have ml: "merge_loop n (int a, int b) 0 (state_of n ms) =
            Inr (merging n ms a b (length (ms ! b)) (num_clusters (state_of n ms)))"
    using merge_loop_merging[OF len a ab(3) neq sz, of 0 "num_clusters (state_of n ms)"]
    by (simp add: merging_0[OF len a ab(3) neq])
  have it: "iteration n dists thresh (state_of n ms) =
             Inr (m, if m < thresh then state_of n (merge_parts a b ms) else state_of n ms)"
    unfolding iteration_def cm sc
    using ml merged_state_of[OF len a ab(3) neq ab(4,5) sz]
    by (simp add: ab(1) merging_def)
  show ?thesis
    using ab it sc cm by (intro exI[of _ a] exI[of _ b]) simp
qed

section \<open>The states of the main loop\<close>

lemma lowest_label_init: "lowest_label n mlg (init_parts n mlg n)"
  unfolding lowest_label_def
proof (intro allI impI)
  fix r assume r: "r < n" and ne: "init_parts n mlg n ! r \<noteq> []"
  then obtain e where "e \<in> set (init_parts n mlg n ! r)" by (cases "init_parts n mlg n ! r") auto
  with r show "(\<forall>e\<in>set (init_parts n mlg n ! r). int r + 1 \<le> mlg ! e) \<and>
      (\<exists>e\<in>set (init_parts n mlg n ! r). mlg ! e = int r + 1)"
    by (auto simp: nth_init_parts)
qed

lemma lowest_label_merge:
  assumes ll: "lowest_label n mlg ms" and len: "length ms = n"
    and ab: "a < b" "b < n" "ms ! a \<noteq> []" "ms ! b \<noteq> []"
  shows "lowest_label n mlg (merge_parts a b ms)"
  unfolding lowest_label_def
proof (intro allI impI)
  fix r assume r: "r < n" and ne: "merge_parts a b ms ! r \<noteq> []"
  from ab have a: "a < n" "a \<noteq> b" by auto
  note nth = nth_merge_parts[OF len a(1) ab(2) a(2)]
  from ne r have rb: "r \<noteq> b" by (auto simp: nth)
  show "(\<forall>e\<in>set (merge_parts a b ms ! r). int r + 1 \<le> mlg ! e) \<and>
        (\<exists>e\<in>set (merge_parts a b ms ! r). mlg ! e = int r + 1)"
  proof (cases "r = a")
    case False
    with r rb ne ll show ?thesis by (simp add: nth lowest_label_def)
  next
    case True
    from ll a ab have A: "\<forall>e\<in>set (ms ! a). int a + 1 \<le> mlg ! e" "\<exists>e\<in>set (ms ! a). mlg ! e = int a + 1"
      and B: "\<forall>e\<in>set (ms ! b). int b + 1 \<le> mlg ! e"
      by (auto simp: lowest_label_def)
    from B ab(1) have "\<forall>e\<in>set (ms ! b). int a + 1 \<le> mlg ! e" by fastforce
    with A True r a show ?thesis by (auto simp: nth)
  qed
qed

lemma loop_step_stands_for:
  assumes nn: "nonneg n dists" and st: "stands_for n mlg s ms" and ls: "loop_step n dists thresh (m, s) (m', s')"
  shows "\<exists>a b. a < b \<and> b < n \<and> ms ! a \<noteq> [] \<and> ms ! b \<noteq> [] \<and>
           scan n dists (cluster_matrix s) = (m', (int a, int b)) \<and>
           m' = complete_linkage n dists (ms ! a) (ms ! b) \<and>
           (if m' < thresh then stands_for n mlg s' (merge_parts a b ms) else s' = s)"
proof -
  from st have s: "s = state_of n ms" and p: "parts n ms" and ll: "lowest_label n mlg ms"
    by (simp_all add: stands_for_def)
  from ls have nc: "1 < num_clusters (state_of n ms)" and it: "iteration n dists thresh (state_of n ms) = Inr (m', s')"
    by (simp_all add: loop_step_def s)
  from iteration_state_of[OF p nn nc, of thresh] it obtain a b where
    ab: "a < b" "b < n" "ms ! a \<noteq> []" "ms ! b \<noteq> []"
      "scan n dists (cluster_matrix (state_of n ms)) = (complete_linkage n dists (ms ! a) (ms ! b), (int a, int b))"
      "m' = complete_linkage n dists (ms ! a) (ms ! b)"
      "s' = (if m' < thresh then state_of n (merge_parts a b ms) else state_of n ms)"
    by auto
  from ab have a: "a < n" "a \<noteq> b" by auto
  have "stands_for n mlg (state_of n (merge_parts a b ms)) (merge_parts a b ms)"
    unfolding stands_for_def
    using parts_merge[OF p a(1) ab(2) a(2)] lowest_label_merge[OF ll parts_length[OF p] ab(1-4)]
    by simp
  with ab s show ?thesis
    by (intro exI[of _ a] exI[of _ b]) auto
qed

lemma reachable_stands_for:
  assumes ok: "labels_ok_from n mlg 0" and nn: "nonneg n dists"
    and r: "reachable n dists mlg thresh v"
  shows "\<exists>ms. stands_for n mlg (snd v) ms"
proof -
  from r obtain s0 where s0: "fill_clusters n mlg 0 (alloc n) = Inr s0"
    and steps: "rtranclp (loop_step n dists thresh) (- 1, s0) v"
    by (auto simp: reachable_def)
  from s0 ok have s0': "s0 = state_of n (init_parts n mlg n)"
    using fill_clusters_init_parts[of 0 n mlg] by (simp add: alloc_state_of[symmetric])
  from steps show ?thesis
  proof (induction rule: rtranclp_induct)
    case base
    show ?case using s0' parts_init[OF ok] lowest_label_init[of n mlg]
      by (auto simp: stands_for_def)
  next
    case (step y z)
    then obtain ms where ms: "stands_for n mlg (snd y) ms" by blast
    from loop_step_stands_for[OF nn ms, of thresh "fst y" "fst z" "snd z"] step(2)
    obtain a b where "if fst z < thresh then stands_for n mlg (snd z) (merge_parts a b ms) else snd z = snd y"
      by auto
    with ms show ?case by (cases "fst z < thresh") auto
  qed
qed

lemma reachable_start:
  "fill_clusters n mlg 0 (alloc n) = Inr s0 \<Longrightarrow> reachable n dists mlg thresh (- 1, s0)"
  by (auto simp: reachable_def)

lemma reachable_step:
  "reachable n dists mlg thresh v \<Longrightarrow> loop_step n dists thresh v v' \<Longrightarrow> reachable n dists mlg thresh v'"
  by (auto simp: reachable_def intro: rtranclp.rtrancl_into_rtrancl)

lemma main_loop_reachable:
  "labels_ok_from n mlg 0 \<Longrightarrow> nonneg n dists \<Longrightarrow> reachable n dists mlg thresh (m, s) \<Longrightarrow>
         \<exists>m' s'. main_loop n dists thresh m s = Inr s' \<and>
                 rtranclp (loop_step n dists thresh) (m, s) (m', s') \<and>
                 \<not> (m' < thresh \<and> 1 < num_clusters s')"
proof (induction n dists thresh m s rule: main_loop.induct)
  case (1 n dists thresh m s)
  note ok = "1.prems"(1) and nn = "1.prems"(2) and re = "1.prems"(3)
  show ?case
  proof (cases "m < thresh \<and> 1 < num_clusters s")
    case False
    then have "main_loop n dists thresh m s = Inr s" by (subst main_loop.simps) auto
    with False show ?thesis by blast
  next
    case True
    from reachable_stands_for[OF ok nn re] obtain ms where ms: "stands_for n mlg s ms" by auto
    then have s: "s = state_of n ms" and p: "parts n ms" by (simp_all add: stands_for_def)
    from iteration_state_of[OF p nn, of thresh] True s
    obtain v where it: "iteration n dists thresh s = Inr v" by auto
    obtain m1 s1 where v: "v = (m1, s1)" by (cases v) auto
    have ls: "loop_step n dists thresh (m, s) (m1, s1)"
      using True it v by (simp add: loop_step_def)
    from reachable_step[OF re ls] have r1: "reachable n dists mlg thresh (m1, s1)" .
    from "1.IH"[OF True it v[symmetric] ok nn r1]
    obtain m' s' where res: "main_loop n dists thresh m1 s1 = Inr s'"
       "rtranclp (loop_step n dists thresh) (m1, s1) (m', s')" "\<not> (m' < thresh \<and> 1 < num_clusters s')"
      by blast
    have "main_loop n dists thresh m s = Inr s'"
      using True it v res(1) by (subst main_loop.simps) simp
    moreover have "rtranclp (loop_step n dists thresh) (m, s) (m', s')"
      using ls res(2) by (rule converse_rtranclp_into_rtranclp)
    ultimately show ?thesis using res(3) by blast
  qed
qed

section \<open>The return vector and the whole call\<close>

lemma fold_label_length [simp]:
  "length (fold (\<lambda>e out. out[e := v]) es rout) = length rout"
  by (induction es arbitrary: rout) auto

lemma fold_label_nth:
  "e < length rout \<Longrightarrow>
   fold (\<lambda>e out. out[e := v]) es rout ! e = (if e \<in> set es then v else rout ! e)"
  by (induction es arbitrary: rout) (auto simp: nth_list_update)

lemma fill_row_fold:
  assumes "length m \<le> n" "\<forall>e\<in>set m. e < n" "j \<le> length m"
  shows "fill_row n (row_of n m) r j rout =
         Inr (fold (\<lambda>e out. out[e := Some (int r + 1)]) (drop j m) rout)"
  using assms(3)
proof (induction "length m - j" arbitrary: j rout)
  case 0
  then have "j = length m" by simp
  then show ?case using assms(1)
    by (subst fill_row.simps) (auto simp: row_of_nth_free)
next
  case (Suc k)
  then have j: "j < length m" by simp
  with assms(1) have jn: "j < n" by simp
  from j assms(2) have mj: "m ! j < n" by simp
  have d: "drop j m = m ! j # drop (Suc j) m" using j by (simp add: Cons_nth_drop_Suc)
  have IH: "\<And>rout. fill_row n (row_of n m) r (Suc j) rout =
         Inr (fold (\<lambda>e out. out[e := Some (int r + 1)]) (drop (Suc j) m) rout)"
    using Suc(2) j by (intro Suc(1)) auto
  show ?case
    using j jn mj by (subst fill_row.simps) (simp add: row_of_nth_member d IH)
qed

lemma fill_return_parts:
  assumes p: "parts n ms" and len: "length rout = n" and i: "i \<le> n"
  shows "\<exists>out. fill_return n (map (row_of n) ms) i rout = Inr out \<and> length out = n \<and>
           (\<forall>r e. i \<le> r \<and> r < n \<and> e \<in> set (ms ! r) \<longrightarrow> out ! e = Some (int r + 1)) \<and>
           (\<forall>e<n. (\<forall>r. i \<le> r \<and> r < n \<longrightarrow> e \<notin> set (ms ! r)) \<longrightarrow> out ! e = rout ! e)"
  using len i
proof (induction "n - i" arbitrary: i rout)
  case 0
  then have "i = n" by simp
  then show ?case using 0 by (subst fill_return.simps) auto
next
  case (Suc k)
  then have i: "i < n" by simp
  from p have lms: "length ms = n" by (simp add: parts_def)
  let ?rout = "fold (\<lambda>e out. out[e := Some (int i + 1)]) (ms ! i) rout"
  have bnd: "\<forall>e\<in>set (ms ! i). e < n" using p i by (simp add: parts_def)
  have row: "fill_row n (map (row_of n) ms ! i) i 0 rout = Inr ?rout"
    using fill_row_fold[OF parts_size[OF p i] bnd, of 0 i rout] i lms by simp
  have lr: "length ?rout = n" using Suc(3) by simp
  have "\<exists>out. fill_return n (map (row_of n) ms) (Suc i) ?rout = Inr out \<and> length out = n \<and>
           (\<forall>r e. Suc i \<le> r \<and> r < n \<and> e \<in> set (ms ! r) \<longrightarrow> out ! e = Some (int r + 1)) \<and>
           (\<forall>e<n. (\<forall>r. Suc i \<le> r \<and> r < n \<longrightarrow> e \<notin> set (ms ! r)) \<longrightarrow> out ! e = ?rout ! e)"
    using Suc(2) i lr by (intro Suc(1)) auto
  then obtain out where out: "fill_return n (map (row_of n) ms) (Suc i) ?rout = Inr out" "length out = n"
      "\<And>r e. Suc i \<le> r \<Longrightarrow> r < n \<Longrightarrow> e \<in> set (ms ! r) \<Longrightarrow> out ! e = Some (int r + 1)"
      "\<And>e. e < n \<Longrightarrow> (\<forall>r. Suc i \<le> r \<and> r < n \<longrightarrow> e \<notin> set (ms ! r)) \<Longrightarrow> out ! e = ?rout ! e"
    by auto
  have eq: "fill_return n (map (row_of n) ms) i rout = Inr out"
    using i row out(1) by (subst fill_return.simps) simp
  have A: "out ! e = Some (int r + 1)" if "i \<le> r" "r < n" "e \<in> set (ms ! r)" for r e
  proof (cases "r = i")
    case False
    with that show ?thesis by (intro out(3)) auto
  next
    case True
    from that bnd True have e: "e < n" by simp
    have "\<forall>r'. Suc i \<le> r' \<and> r' < n \<longrightarrow> e \<notin> set (ms ! r')"
    proof (intro allI impI)
      fix r' assume "Suc i \<le> r' \<and> r' < n"
      then have "set (ms ! i) \<inter> set (ms ! r') = {}"
        using p i unfolding parts_def by (metis Suc_n_not_le_n)
      with that True show "e \<notin> set (ms ! r')" by auto
    qed
    from out(4)[OF e this] show ?thesis
      using that True e Suc(3) by (simp add: fold_label_nth)
  qed
  have B: "out ! e = rout ! e" if "e < n" "\<forall>r. i \<le> r \<and> r < n \<longrightarrow> e \<notin> set (ms ! r)" for e
  proof -
    from that i have "e \<notin> set (ms ! i)" by auto
    moreover from that have "\<forall>r. Suc i \<le> r \<and> r < n \<longrightarrow> e \<notin> set (ms ! r)" by auto
    ultimately show ?thesis using out(4)[OF that(1)] that(1) Suc(3) by (simp add: fold_label_nth)
  qed
  show ?case using eq out(2) A B by blast
qed

lemma labels_in_range_ok: "labels_in_range n mlg \<Longrightarrow> labels_ok_from n mlg 0"
  by (auto simp: labels_in_range_def labels_ok_from_def list_all_length)

text \<open>The whole call on labels in range and a non-negative matrix: it returns, and the
  final state stands for a partition.\<close>

lemma run_returns:
  assumes lab: "labels_in_range n mlg" and nn: "nonneg n dists"
  shows "\<exists>m ms out. farthest_neighbor_run n dists mlg thresh = Inr (state_of n ms, out) \<and>
           reachable n dists mlg thresh (m, state_of n ms) \<and>
           \<not> (m < thresh \<and> 1 < num_clusters (state_of n ms)) \<and>
           parts n ms \<and> lowest_label n mlg ms \<and> length out = n \<and>
           (\<forall>r e. r < n \<and> e \<in> set (ms ! r) \<longrightarrow> out ! e = Some (int r + 1))"
proof -
  note ok = labels_in_range_ok[OF lab]
  let ?s0 = "state_of n (init_parts n mlg n)"
  have s0: "fill_clusters n mlg 0 (alloc n) = Inr ?s0"
    using fill_clusters_init_parts[of 0 n mlg] ok by (simp add: alloc_state_of[symmetric])
  have r0: "reachable n dists mlg thresh (- 1, ?s0)" by (rule reachable_start[OF s0])
  from main_loop_reachable[OF ok nn r0] obtain m s1 where
    ml: "main_loop n dists thresh (- 1) ?s0 = Inr s1"
    and st: "rtranclp (loop_step n dists thresh) (- 1, ?s0) (m, s1)"
    and fin: "\<not> (m < thresh \<and> 1 < num_clusters s1)"
    by blast
  have r1: "reachable n dists mlg thresh (m, s1)"
    using s0 st by (auto simp: reachable_def)
  from reachable_stands_for[OF ok nn r1] obtain ms where ms: "stands_for n mlg s1 ms" by auto
  then have s1: "s1 = state_of n ms" and p: "parts n ms" and ll: "lowest_label n mlg ms"
    by (simp_all add: stands_for_def)
  from fill_return_parts[OF p, of "replicate n None" 0] obtain out where
    out: "fill_return n (map (row_of n) ms) 0 (replicate n None) = Inr out" "length out = n"
      "\<forall>r e. 0 \<le> r \<and> r < n \<and> e \<in> set (ms ! r) \<longrightarrow> out ! e = Some (int r + 1)"
    by auto
  have "farthest_neighbor_run n dists mlg thresh = Inr (state_of n ms, out)"
    using s0 ml out(1) s1 by (simp add: farthest_neighbor_run_def state_of_def)
  with r1 fin s1 p ll out(2,3) show ?thesis by blast
qed

section \<open>Facts about the examples and further lemmas\<close>

lemma nonneg_code:
  "nonneg n dists \<longleftrightarrow>
   list_all (\<lambda>u. list_all (\<lambda>v. u = v \<or> 0 \<le> dists (int u * int n + int v)) [0..<n]) [0..<n]"
  unfolding nonneg_def list_all_iff by (simp add: Ball_def) blast

lemma nonneg_example: "nonneg 4 example_dists"
  unfolding nonneg_code by code_simp

lemma labels_example: "labels_in_range 4 [1, 2, 3, 4]"
  by code_simp

lemma parts_unique_slot:
  assumes "parts n ms" "r < n" "r' < n" "e \<in> set (ms ! r)" "e \<in> set (ms ! r')"
  shows "r = r'"
proof (rule ccontr)
  assume "r \<noteq> r'"
  with assms have "set (ms ! r) \<inter> set (ms ! r') = {}" by (simp add: parts_def)
  with assms(4,5) show False by auto
qed

lemma parts_slot_of:
  assumes "parts n ms" "e < n"
  obtains r where "r < n" "e \<in> set (ms ! r)"
  using assms unfolding parts_def by blast

lemma reachable_example:
  "reachable 4 example_dists [1, 2, 3, 4] 2
     (1, \<lparr>cluster_matrix = [[0, 1, - 1, - 1], [- 1, - 1, - 1, - 1], [2, - 1, - 1, - 1], [3, - 1, - 1, - 1]],
          cluster_size = [2, 0, 1, 1], num_clusters = 3\<rparr>)"
proof -
  let ?s0 = "\<lparr>cluster_matrix = [[0, - 1, - 1, - 1], [1, - 1, - 1, - 1], [2, - 1, - 1, - 1], [3, - 1, - 1, - 1]],
          cluster_size = [1, 1, 1, 1], num_clusters = 4\<rparr>"
  have "fill_clusters 4 [1, 2, 3, 4] 0 (alloc 4) = Inr ?s0" by code_simp
  then have "reachable 4 example_dists [1, 2, 3, 4] 2 (- 1, ?s0)" by (rule reachable_start)
  moreover have "loop_step 4 example_dists 2 (- 1, ?s0)
     (1, \<lparr>cluster_matrix = [[0, 1, - 1, - 1], [- 1, - 1, - 1, - 1], [2, - 1, - 1, - 1], [3, - 1, - 1, - 1]],
          cluster_size = [2, 0, 1, 1], num_clusters = 3\<rparr>)"
    unfolding loop_step_def by code_simp
  ultimately show ?thesis by (rule reachable_step)
qed

lemma loop_step_main_loop:
  "loop_step n dists thresh v v' \<Longrightarrow>
   main_loop n dists thresh (fst v) (snd v) = main_loop n dists thresh (fst v') (snd v')"
  by (cases v', subst main_loop.simps) (simp add: loop_step_def)

lemma loop_steps_main_loop:
  "rtranclp (loop_step n dists thresh) v v' \<Longrightarrow>
   main_loop n dists thresh (fst v) (snd v) = main_loop n dists thresh (fst v') (snd v')"
  by (induction rule: rtranclp_induct) (auto dest: loop_step_main_loop)

lemma empty_slot_stays_empty:
  assumes nn: "nonneg n dists"
    and steps: "rtranclp (loop_step n dists thresh) v v'"
    and st: "stands_for n mlg (snd v) ms" and r: "r < n" "ms ! r = []"
  shows "\<exists>ms'. stands_for n mlg (snd v') ms' \<and> ms' ! r = []"
  using steps
proof (induction rule: rtranclp_induct)
  case base
  show ?case using st r by blast
next
  case (step y z)
  then obtain ms1 where ms1: "stands_for n mlg (snd y) ms1" "ms1 ! r = []" by blast
  from loop_step_stands_for[OF nn ms1(1), of thresh "fst y" "fst z" "snd z"] step(2)
  obtain a b where ab: "a < b" "b < n" "ms1 ! a \<noteq> []" "ms1 ! b \<noteq> []"
    "if fst z < thresh then stands_for n mlg (snd z) (merge_parts a b ms1) else snd z = snd y"
    by auto
  show ?case
  proof (cases "fst z < thresh")
    case False
    with ab ms1 show ?thesis by auto
  next
    case True
    from ms1 have len: "length ms1 = n" by (simp add: stands_for_def parts_def)
    from ab ms1(2) have "r \<noteq> a" "r \<noteq> b" by auto
    with ab r len have "merge_parts a b ms1 ! r = []"
      using ms1(2) by (simp add: nth_merge_parts)
    with True ab show ?thesis by auto
  qed
qed

lemma reachable_example_start:
  "reachable 4 example_dists [1, 2, 3, 4] 2
     (- 1, \<lparr>cluster_matrix = [[0, - 1, - 1, - 1], [1, - 1, - 1, - 1], [2, - 1, - 1, - 1], [3, - 1, - 1, - 1]],
            cluster_size = [1, 1, 1, 1], num_clusters = 4\<rparr>)"
proof -
  have "fill_clusters 4 [1, 2, 3, 4] 0 (alloc 4) =
     Inr \<lparr>cluster_matrix = [[0, - 1, - 1, - 1], [1, - 1, - 1, - 1], [2, - 1, - 1, - 1], [3, - 1, - 1, - 1]],
          cluster_size = [1, 1, 1, 1], num_clusters = 4\<rparr>" by code_simp
  then show ?thesis by (rule reachable_start)
qed

lemma loop_step_example:
  "loop_step 4 example_dists 2
     (- 1, \<lparr>cluster_matrix = [[0, - 1, - 1, - 1], [1, - 1, - 1, - 1], [2, - 1, - 1, - 1], [3, - 1, - 1, - 1]],
            cluster_size = [1, 1, 1, 1], num_clusters = 4\<rparr>)
     (1, \<lparr>cluster_matrix = [[0, 1, - 1, - 1], [- 1, - 1, - 1, - 1], [2, - 1, - 1, - 1], [3, - 1, - 1, - 1]],
          cluster_size = [2, 0, 1, 1], num_clusters = 3\<rparr>)"
  unfolding loop_step_def by code_simp

text \<open>The distance of two singleton clusters is the one cell of the matrix read for them.\<close>

lemma complete_linkage_singletons:
  "complete_linkage n dists [u] [v] = dists (int u * int n + int v)"
  by (simp add: complete_linkage_def)

lemma two_singletons_run:
  assumes nn: "nonneg 2 dists"
  shows "farthest_neighbor 2 dists [1, 2] thresh =
         Inr (if dists 1 < thresh then [Some 1, Some 1] else [Some 1, Some 2])"
proof -
  let ?ms = "[[0], [1 :: nat]]"
  have lab: "labels_in_range 2 [1, 2]" by code_simp
  have ip: "init_parts 2 [1, 2] 2 = ?ms" by code_simp
  have p: "parts 2 ?ms" using parts_init[OF labels_in_range_ok[OF lab]] by (simp add: ip)
  have s0: "fill_clusters 2 [1, 2] 0 (alloc 2) = Inr (state_of 2 ?ms)" by code_simp
  have nc: "1 < num_clusters (state_of 2 ?ms)" by code_simp
  from iteration_state_of[OF p nn nc, of thresh] obtain a b where
    ab: "a < b" "b < 2"
    and it: "iteration 2 dists thresh (state_of 2 ?ms) =
             Inr (complete_linkage 2 dists (?ms ! a) (?ms ! b),
                  if complete_linkage 2 dists (?ms ! a) (?ms ! b) < thresh
                  then state_of 2 (merge_parts a b ?ms) else state_of 2 ?ms)"
    by blast
  from ab have a: "a = 0" and b: "b = 1" by auto
  have d: "complete_linkage 2 dists (?ms ! 0) (?ms ! 1) = dists 1"
    by (simp add: complete_linkage_singletons)
  have "(0 :: nat) < 2" "(1 :: nat) < 2" "(0 :: nat) \<noteq> 1" by simp_all
  with nn have "0 \<le> dists (int 0 * int 2 + int 1)"
    unfolding nonneg_def by blast
  then have d0: "0 \<le> dists 1" by simp
  have mp: "merge_parts 0 1 ?ms = [[0, 1], []]" by (simp add: merge_parts_def)
  note it' = it[unfolded a b d mp]
  have nc1: "\<not> 1 < num_clusters (state_of 2 [[0, 1], []])" by code_simp
  have ml: "main_loop 2 dists thresh (- 1) (state_of 2 ?ms) =
            Inr (if dists 1 < thresh then state_of 2 [[0, 1], []] else state_of 2 ?ms)"
  proof (cases "dists 1 < thresh")
    case True
    with d0 have "- 1 < thresh" by simp
    with nc it' True have "main_loop 2 dists thresh (- 1) (state_of 2 ?ms) =
        main_loop 2 dists thresh (dists 1) (state_of 2 [[0, 1], []])"
      by (subst main_loop.simps) simp
    also have "\<dots> = Inr (state_of 2 [[0, 1], []])"
      using nc1 by (subst main_loop.simps) simp
    finally show ?thesis using True by simp
  next
    case False
    have stop: "main_loop 2 dists thresh (dists 1) (state_of 2 ?ms) = Inr (state_of 2 ?ms)"
      using False by (subst main_loop.simps) simp
    show ?thesis
    proof (cases "- 1 < thresh")
      case True
      with nc it' False have "main_loop 2 dists thresh (- 1) (state_of 2 ?ms) =
          main_loop 2 dists thresh (dists 1) (state_of 2 ?ms)"
        by (subst main_loop.simps) simp
      with stop False show ?thesis by simp
    next
      case F: False
      then have "main_loop 2 dists thresh (- 1) (state_of 2 ?ms) = Inr (state_of 2 ?ms)"
        by (subst main_loop.simps) simp
      with False show ?thesis by simp
    qed
  qed
  have o1: "fill_return 2 (cluster_matrix (state_of 2 [[0, 1], []])) 0 (replicate 2 None) =
            Inr [Some 1, Some 1]" by code_simp
  have o2: "fill_return 2 (cluster_matrix (state_of 2 ?ms)) 0 (replicate 2 None) =
            Inr [Some 1, Some 2]" by code_simp
  show ?thesis
    using s0 ml o1 o2
    by (simp add: farthest_neighbor_def farthest_neighbor_run_def)
qed

lemma stable_run:
  assumes lab: "labels_in_range n mlg" and nn: "nonneg n dists" and st: "stable n dists thresh mlg"
  shows "farthest_neighbor n dists mlg thresh = Inr (map Some mlg)"
proof -
  note ok = labels_in_range_ok[OF lab]
  let ?ms = "init_parts n mlg n"
  let ?s0 = "state_of n ?ms"
  have p: "parts n ?ms" by (rule parts_init[OF ok])
  have s0: "fill_clusters n mlg 0 (alloc n) = Inr ?s0"
    using fill_clusters_init_parts[of 0 n mlg] ok by (simp add: alloc_state_of[symmetric])
  have ml: "main_loop n dists thresh (- 1) ?s0 = Inr ?s0"
  proof (cases "- 1 < thresh \<and> 1 < num_clusters ?s0")
    case False
    then show ?thesis by (subst main_loop.simps) auto
  next
    case True
    then have nc: "1 < num_clusters ?s0" by simp
    from iteration_state_of[OF p nn nc, of thresh] obtain a b where
      ab: "a < b" "b < n" "?ms ! a \<noteq> []" "?ms ! b \<noteq> []"
      and it: "iteration n dists thresh ?s0 =
             Inr (complete_linkage n dists (?ms ! a) (?ms ! b),
                  if complete_linkage n dists (?ms ! a) (?ms ! b) < thresh
                  then state_of n (merge_parts a b ?ms) else ?s0)"
      by blast
    from ab have a: "a < n" "a \<noteq> b" by auto
    have c: "?ms ! a = cluster_of n mlg a" "?ms ! b = cluster_of n mlg b"
      using a ab by (simp_all add: nth_init_parts cluster_of_def)
    from a ab have "a \<in> set [0..<n]" "b \<in> set [0..<n]" by simp_all
    with st have "a = b \<or> cluster_of n mlg a = [] \<or> cluster_of n mlg b = []
         \<or> thresh \<le> complete_linkage n dists (cluster_of n mlg a) (cluster_of n mlg b)"
      unfolding stable_def list_all_iff by blast
    with a ab have "thresh \<le> complete_linkage n dists (?ms ! a) (?ms ! b)"
      unfolding c by simp
    then have ge: "\<not> complete_linkage n dists (?ms ! a) (?ms ! b) < thresh" by simp
    with it have it': "iteration n dists thresh ?s0 =
             Inr (complete_linkage n dists (?ms ! a) (?ms ! b), ?s0)" by simp
    have "main_loop n dists thresh (- 1) ?s0 =
          main_loop n dists thresh (complete_linkage n dists (?ms ! a) (?ms ! b)) ?s0"
      using True it' by (subst main_loop.simps) simp
    also have "\<dots> = Inr ?s0" using ge by (subst main_loop.simps) simp
    finally show ?thesis .
  qed
  from lab have len: "length mlg = n" by (simp add: labels_in_range_def)
  from fill_return_parts[OF p, of "replicate n None" 0] obtain out where
    out: "fill_return n (map (row_of n) ?ms) 0 (replicate n None) = Inr out" "length out = n"
      "\<And>r e. r < n \<Longrightarrow> e \<in> set (?ms ! r) \<Longrightarrow> out ! e = Some (int r + 1)"
    by auto
  have "out = map Some mlg"
  proof (rule nth_equalityI)
    show "length out = length (map Some mlg)" using out(2) len by simp
  next
    fix e assume "e < length out"
    then have e: "e < n" using out(2) by simp
    with ok have l: "1 \<le> mlg ! e" "mlg ! e \<le> int n" by (auto simp: labels_ok_from_def)
    then have r: "nat (mlg ! e - 1) < n" "int (nat (mlg ! e - 1)) + 1 = mlg ! e" by auto
    with e have "e \<in> set (?ms ! nat (mlg ! e - 1))" by (simp add: nth_init_parts)
    from out(3)[OF r(1) this] r(2) e len show "out ! e = map Some mlg ! e" by simp
  qed
  with s0 ml out(1) show ?thesis
    by (simp add: farthest_neighbor_def farthest_neighbor_run_def state_of_def)
qed

section \<open>The claims\<close>

text \<open>
  Claim C1, at a failing input: a state that the initialization reaches. Three singleton
  clusters, \<open>d(0,2) = 1\<close> and the other two distances 5, threshold 2. For the pair of slots
  \<open>(0, 1)\<close> the scanner compares 5. For the pair \<open>(0, 2)\<close> it compares 5 again, the value
  that \<open>tmp_max\<close> keeps from the pair \<open>(0, 1)\<close>, not the complete-linkage distance 1 of
  the pair. The scan selects \<open>(0, 1)\<close> at distance 5 although \<open>(0, 2)\<close> has the least
  distance, and the call merges nothing.
\<close>

theorem scan_misses_closest_pair:
  "fill_clusters 3 [1, 2, 3] 0 (alloc 3) =
     Inr \<lparr>cluster_matrix = [[0, - 1, - 1], [1, - 1, - 1], [2, - 1, - 1]],
          cluster_size = [1, 1, 1], num_clusters = 3\<rparr>
   \<and> k_loop 3 far_then_near [0, - 1, - 1] [1, - 1, - 1] 0 (- 1) = 5
   \<and> k_loop 3 far_then_near [0, - 1, - 1] [2, - 1, - 1] 0 5 = 5
   \<and> complete_linkage 3 far_then_near
         (members [[0, - 1, - 1], [1, - 1, - 1], [2, - 1, - 1]] 0)
         (members [[0, - 1, - 1], [1, - 1, - 1], [2, - 1, - 1]] 2) = 1
   \<and> j_loop 3 far_then_near [[0, - 1, - 1], [1, - 1, - 1], [2, - 1, - 1]] 0 1 (- 1, - 1, (- 1, - 1))
       = (5, 5, (0, 1))
   \<and> scan 3 far_then_near [[0, - 1, - 1], [1, - 1, - 1], [2, - 1, - 1]] = (5, (0, 1))
   \<and> farthest_neighbor 3 far_then_near [1, 2, 3] 2 = Inr [Some 1, Some 2, Some 3]"
  by code_simp

text \<open>
  Claim C2, as stated, at a concrete input: \<open>n = 2\<close> and the labels \<open>[1, 3]\<close>. Nothing is
  detected before initialization: entity 0 is placed in slot 0, and then line 121 reads
  \<open>cluster_size[2]\<close> of an array of two cells.
\<close>

theorem invalid_label_not_detected:
  "place 0 0 (alloc 2) = \<lparr>cluster_matrix = [[0, - 1], [- 1, - 1]], cluster_size = [1, 0], num_clusters = 1\<rparr>
   \<and> fill_clusters 2 [1, 3] 1 (place 0 0 (alloc 2)) = Inl OutOfBounds
   \<and> fill_clusters 2 [1, 3] 0 (alloc 2) = Inl OutOfBounds
   \<and> farthest_neighbor 2 (\<lambda>k. 0) [1, 3] 1 = Inl OutOfBounds"
  by code_simp

text \<open>
  Claim C2, as the code has it. No label is checked. With a label outside \<open>[1, n]\<close> the
  initialization at lines 121 and 122 indexes \<open>cluster_size\<close> and \<open>cluster_matrix\<close> outside
  their \<open>n\<close> rows: the call has no defined result (the fault \<open>OutOfBounds\<close> of the model),
  and no \<open>InvalidLabel\<close> is reported.
\<close>

theorem label_out_of_range_unchecked:
  assumes "length mlg = n" "\<not> list_all (\<lambda>l. 1 \<le> l \<and> l \<le> int n) mlg"
  shows "fill_clusters n mlg 0 (alloc n) = Inl OutOfBounds
         \<and> farthest_neighbor n dists mlg thresh = Inl OutOfBounds"
proof -
  from assms have "\<not> labels_ok_from n mlg 0"
    by (auto simp: labels_ok_from_def list_all_length)
  then have "fill_clusters n mlg 0 (alloc n) = Inl OutOfBounds"
    using fill_clusters_init_parts[of 0 n mlg] by (simp add: alloc_state_of[symmetric])
  then show ?thesis
    by (simp add: farthest_neighbor_def farthest_neighbor_run_def)
qed

theorem label_out_of_range_unchecked_witness:
  "length [1, 3 :: int] = 2 \<and> \<not> list_all (\<lambda>l. 1 \<le> l \<and> l \<le> int 2) [1, 3 :: int]
   \<and> fill_clusters 2 [1, 3] 0 (alloc 2) = Inl OutOfBounds
   \<and> farthest_neighbor 2 (\<lambda>k. 0) [1, 3] 1 = Inl OutOfBounds"
  using label_out_of_range_unchecked[of "[1, 3]" 2 "\<lambda>k. 0" 1] by simp

text \<open>
  Claim C3. On labels in range and a non-negative matrix, when the body of the main loop
  runs, the scan selects a pair \<open>a < b\<close> with the distance \<open>d\<close>, the complete-linkage
  distance of the two slots; the iteration merges slot \<open>b\<close> into slot \<open>a\<close> if \<open>d < thresh\<close>
  and leaves the state as it is otherwise. For two entities in two singleton clusters the
  call merges them exactly if their distance, the cell at index 1, is below the threshold:
  a distance equal to the threshold leaves the labels \<open>[1, 2]\<close>.
\<close>

theorem merge_iff_below_threshold:
  assumes "labels_in_range n mlg" "nonneg n dists"
    and "reachable n dists mlg thresh (m, s)" and "m < thresh" and "1 < num_clusters s"
  shows "(\<exists>a b d s'. a < b \<and> b < n
            \<and> d = complete_linkage n dists (members (cluster_matrix s) a) (members (cluster_matrix s) b)
            \<and> scan n dists (cluster_matrix s) = (d, (int a, int b))
            \<and> iteration n dists thresh s = Inr (d, s')
            \<and> (d < thresh \<longrightarrow>
                  members (cluster_matrix s') a = members (cluster_matrix s) a @ members (cluster_matrix s) b
                  \<and> members (cluster_matrix s') b = []
                  \<and> num_clusters s' = num_clusters s - 1)
            \<and> (\<not> d < thresh \<longrightarrow> s' = s))
         \<and> (\<forall>d2 t. nonneg 2 d2 \<longrightarrow>
               farthest_neighbor 2 d2 [1, 2] t =
                 Inr (if d2 1 < t then [Some 1, Some 1] else [Some 1, Some 2]))"
proof (rule conjI)
  note ok = labels_in_range_ok[OF assms(1)] and nn = assms(2)
  from reachable_stands_for[OF ok nn assms(3)] obtain ms where ms: "stands_for n mlg s ms" by auto
  then have s: "s = state_of n ms" and p: "parts n ms" by (simp_all add: stands_for_def)
  from p have len: "length ms = n" by (simp add: parts_def)
  have nc: "1 < num_clusters (state_of n ms)" using assms(5) s by simp
  from iteration_state_of[OF p nn nc, of thresh] obtain a b where
    ab: "a < b" "b < n"
    and sc: "scan n dists (cluster_matrix (state_of n ms)) =
             (complete_linkage n dists (ms ! a) (ms ! b), (int a, int b))"
    and it: "iteration n dists thresh (state_of n ms) =
             Inr (complete_linkage n dists (ms ! a) (ms ! b),
                  if complete_linkage n dists (ms ! a) (ms ! b) < thresh
                  then state_of n (merge_parts a b ms) else state_of n ms)"
    by blast
  from ab have a: "a < n" "a \<noteq> b" by auto
  let ?d = "complete_linkage n dists (ms ! a) (ms ! b)"
  let ?s' = "if ?d < thresh then state_of n (merge_parts a b ms) else state_of n ms"
  have lm: "length (merge_parts a b ms) = n" using len by (simp add: merge_parts_def)
  note nth = nth_merge_parts[OF len a(1) ab(2) a(2)]
  have mem: "\<And>r. r < n \<Longrightarrow> members (cluster_matrix s) r = ms ! r"
    using len s by (simp add: members_state_of)
  have merged: "members (cluster_matrix ?s') a = members (cluster_matrix s) a @ members (cluster_matrix s) b
                  \<and> members (cluster_matrix ?s') b = []
                  \<and> num_clusters ?s' = num_clusters s - 1" if "?d < thresh"
    using that lm a ab mem iteration_progress[OF it] s
    by (simp add: members_state_of nth)
  show "\<exists>a b d s'. a < b \<and> b < n
            \<and> d = complete_linkage n dists (members (cluster_matrix s) a) (members (cluster_matrix s) b)
            \<and> scan n dists (cluster_matrix s) = (d, (int a, int b))
            \<and> iteration n dists thresh s = Inr (d, s')
            \<and> (d < thresh \<longrightarrow>
                  members (cluster_matrix s') a = members (cluster_matrix s) a @ members (cluster_matrix s) b
                  \<and> members (cluster_matrix s') b = []
                  \<and> num_clusters s' = num_clusters s - 1)
            \<and> (\<not> d < thresh \<longrightarrow> s' = s)"
    using ab a sc it merged mem s
    by (intro exI[of _ a] exI[of _ b] exI[of _ ?d] exI[of _ ?s']) simp
next
  show "\<forall>d2 t. nonneg 2 d2 \<longrightarrow>
               farthest_neighbor 2 d2 [1, 2] t =
                 Inr (if d2 1 < t then [Some 1, Some 1] else [Some 1, Some 2])"
    using two_singletons_run by blast
qed

theorem merge_iff_below_threshold_witness:
  "labels_in_range 4 [1, 2, 3, 4] \<and> nonneg 4 example_dists
   \<and> reachable 4 example_dists [1, 2, 3, 4] 2
     (- 1, \<lparr>cluster_matrix = [[0, - 1, - 1, - 1], [1, - 1, - 1, - 1], [2, - 1, - 1, - 1], [3, - 1, - 1, - 1]],
            cluster_size = [1, 1, 1, 1], num_clusters = 4\<rparr>)
   \<and> (- 1 :: real) < 2 \<and> (1 :: int) < 4
   \<and> (\<exists>a b d s'. a < b \<and> b < 4
         \<and> scan 4 example_dists [[0, - 1, - 1, - 1], [1, - 1, - 1, - 1], [2, - 1, - 1, - 1], [3, - 1, - 1, - 1]]
             = (d, (int a, int b))
         \<and> iteration 4 example_dists 2
             \<lparr>cluster_matrix = [[0, - 1, - 1, - 1], [1, - 1, - 1, - 1], [2, - 1, - 1, - 1], [3, - 1, - 1, - 1]],
              cluster_size = [1, 1, 1, 1], num_clusters = 4\<rparr> = Inr (d, s'))
   \<and> nonneg 2 (\<lambda>k. 1)
   \<and> farthest_neighbor 2 (\<lambda>k. 1) [1, 2] 1 = Inr [Some 1, Some 2]
   \<and> farthest_neighbor 2 (\<lambda>k. 1) [1, 2] 2 = Inr [Some 1, Some 1]"
proof -
  have c: "(- 1 :: real) < 2" "(1 :: int) < num_clusters \<lparr>cluster_matrix = [[0, - 1, - 1, - 1], [1, - 1, - 1, - 1], [2, - 1, - 1, - 1], [3, - 1, - 1, - 1]],
            cluster_size = [1, 1, 1, 1], num_clusters = 4\<rparr>" by simp_all
  have nn2: "nonneg 2 (\<lambda>k. 1)" by (simp add: nonneg_def)
  note th = merge_iff_below_threshold[OF labels_example nonneg_example reachable_example_start c]
  from th have "\<exists>a b d s'. a < b \<and> b < 4
         \<and> scan 4 example_dists [[0, - 1, - 1, - 1], [1, - 1, - 1, - 1], [2, - 1, - 1, - 1], [3, - 1, - 1, - 1]]
             = (d, (int a, int b))
         \<and> iteration 4 example_dists 2
             \<lparr>cluster_matrix = [[0, - 1, - 1, - 1], [1, - 1, - 1, - 1], [2, - 1, - 1, - 1], [3, - 1, - 1, - 1]],
              cluster_size = [1, 1, 1, 1], num_clusters = 4\<rparr> = Inr (d, s')"
    by (simp only: state.simps) blast
  moreover from th nn2 have "farthest_neighbor 2 (\<lambda>k. 1) [1, 2] 1 = Inr [Some 1, Some 2]"
    "farthest_neighbor 2 (\<lambda>k. 1) [1, 2] 2 = Inr [Some 1, Some 1]"
    by simp_all
  ultimately show ?thesis
    using labels_example nonneg_example reachable_example_start nn2 by simp
qed

text \<open>
  Claim C4, at a failing input. Three singleton clusters, the pairs \<open>(0, 2)\<close> and \<open>(1, 2)\<close>
  both at the least complete-linkage distance 1, below the threshold 2, and \<open>(0, 1)\<close> at 5.
  The pair \<open>(0, 2)\<close> comes first in ascending \<open>(i, j)\<close> order, but the scan retains
  \<open>(1, 2)\<close> and the iteration merges slot 2 into slot 1; the call returns \<open>[1, 2, 2]\<close>.
\<close>

theorem tie_keeps_later_pair:
  "complete_linkage 3 tie_dists
         (members [[0, - 1, - 1], [1, - 1, - 1], [2, - 1, - 1]] 0)
         (members [[0, - 1, - 1], [1, - 1, - 1], [2, - 1, - 1]] 2) = 1
   \<and> complete_linkage 3 tie_dists
         (members [[0, - 1, - 1], [1, - 1, - 1], [2, - 1, - 1]] 1)
         (members [[0, - 1, - 1], [1, - 1, - 1], [2, - 1, - 1]] 2) = 1
   \<and> complete_linkage 3 tie_dists
         (members [[0, - 1, - 1], [1, - 1, - 1], [2, - 1, - 1]] 0)
         (members [[0, - 1, - 1], [1, - 1, - 1], [2, - 1, - 1]] 1) = 5
   \<and> scan 3 tie_dists [[0, - 1, - 1], [1, - 1, - 1], [2, - 1, - 1]] = (1, (1, 2))
   \<and> iteration 3 tie_dists 2
        \<lparr>cluster_matrix = [[0, - 1, - 1], [1, - 1, - 1], [2, - 1, - 1]],
         cluster_size = [1, 1, 1], num_clusters = 3\<rparr> =
      Inr (1, \<lparr>cluster_matrix = [[0, - 1, - 1], [1, 2, - 1], [- 1, - 1, - 1]],
               cluster_size = [1, 2, 0], num_clusters = 2\<rparr>)
   \<and> farthest_neighbor 3 tie_dists [1, 2, 3] 2 = Inr [Some 1, Some 2, Some 2]"
  by code_simp

text \<open>
  Claim C5. On labels in range and a non-negative matrix, let an iteration of the main
  loop merge (its distance is below the threshold). The selected pair \<open>(a, b)\<close> has
  \<open>a < b\<close> and both slots non-empty; afterwards slot \<open>a\<close> lists its former members followed
  by those of slot \<open>b\<close>, slot \<open>b\<close> is empty (by its cells and by its size), every other slot
  is as before and \<open>num_clusters\<close> is one less; slot \<open>b\<close> is empty in every later state of
  the loop and in the final state of the call.
\<close>

theorem merge_absorbs_higher_slot:
  assumes "labels_in_range n mlg" "nonneg n dists"
    and "reachable n dists mlg thresh (m, s)"
    and "loop_step n dists thresh (m, s) (m', s')"
    and "m' < thresh"
  shows "\<exists>a b. scan n dists (cluster_matrix s) = (m', (int a, int b)) \<and> a < b \<and> b < n
           \<and> members (cluster_matrix s) a \<noteq> [] \<and> members (cluster_matrix s) b \<noteq> []
           \<and> members (cluster_matrix s') a = members (cluster_matrix s) a @ members (cluster_matrix s) b
           \<and> members (cluster_matrix s') b = [] \<and> cluster_size s' ! b = 0
           \<and> (\<forall>r<n. r \<noteq> a \<and> r \<noteq> b \<longrightarrow> members (cluster_matrix s') r = members (cluster_matrix s) r)
           \<and> num_clusters s' = num_clusters s - 1
           \<and> (\<forall>v. rtranclp (loop_step n dists thresh) (m', s') v \<longrightarrow>
                  members (cluster_matrix (snd v)) b = [])
           \<and> (\<exists>s_fin out. farthest_neighbor_run n dists mlg thresh = Inr (s_fin, out)
                  \<and> members (cluster_matrix s_fin) b = [])"
proof -
  note ok = labels_in_range_ok[OF assms(1)] and nn = assms(2)
  from reachable_stands_for[OF ok nn assms(3)] obtain ms where ms: "stands_for n mlg s ms" by auto
  then have s: "s = state_of n ms" and p: "parts n ms" by (simp_all add: stands_for_def)
  from p have len: "length ms = n" by (simp add: parts_def)
  from loop_step_stands_for[OF nn ms assms(4)] assms(5) obtain a b where
    ab: "a < b" "b < n" "ms ! a \<noteq> []" "ms ! b \<noteq> []"
      "scan n dists (cluster_matrix s) = (m', (int a, int b))"
    and st': "stands_for n mlg s' (merge_parts a b ms)"
    by auto
  from ab have a: "a < n" "a \<noteq> b" by auto
  from st' have s': "s' = state_of n (merge_parts a b ms)" by (simp add: stands_for_def)
  have lm: "length (merge_parts a b ms) = n" using len by (simp add: merge_parts_def)
  note nth = nth_merge_parts[OF len a(1) ab(2) a(2)]
  have mem: "\<And>r. r < n \<Longrightarrow> members (cluster_matrix s) r = ms ! r"
    using len s by (simp add: members_state_of)
  have mem': "\<And>r. r < n \<Longrightarrow> members (cluster_matrix s') r = merge_parts a b ms ! r"
    using lm s' by (simp add: members_state_of)
  have nc: "num_clusters s' = num_clusters s - 1"
    using iteration_progress[of n dists thresh s m' s'] assms(4,5) by (simp add: loop_step_def)
  have size: "cluster_size s' ! b = 0"
    using s' lm ab(2) by (simp add: state_of_def nth)
  have later: "members (cluster_matrix (snd v)) b = []"
    if "rtranclp (loop_step n dists thresh) (m', s') v" for v
  proof -
    have "merge_parts a b ms ! b = []" using ab(2) by (simp add: nth)
    from empty_slot_stays_empty[OF nn that, of mlg "merge_parts a b ms" b] st' ab(2) this
    obtain ms' where "stands_for n mlg (snd v) ms'" "ms' ! b = []" by auto
    then show ?thesis using ab(2)
      by (simp add: stands_for_def parts_def members_state_of)
  qed
  have fin: "\<exists>s_fin out. farthest_neighbor_run n dists mlg thresh = Inr (s_fin, out)
                  \<and> members (cluster_matrix s_fin) b = []"
  proof -
    from assms(3) obtain s0 where s0: "fill_clusters n mlg 0 (alloc n) = Inr s0"
      and steps: "rtranclp (loop_step n dists thresh) (- 1, s0) (m, s)"
      by (auto simp: reachable_def)
    from steps assms(4) have "rtranclp (loop_step n dists thresh) (- 1, s0) (m', s')" by auto
    from loop_steps_main_loop[OF this]
    have eq: "main_loop n dists thresh (- 1) s0 = main_loop n dists thresh m' s'" by simp
    have "reachable n dists mlg thresh (m', s')" by (rule reachable_step[OF assms(3,4)])
    from main_loop_reachable[OF ok nn this] obtain m2 s2 where
      s2: "main_loop n dists thresh m' s' = Inr s2"
        "rtranclp (loop_step n dists thresh) (m', s') (m2, s2)" by blast
    from later[OF s2(2)] have e2: "members (cluster_matrix s2) b = []" by simp
    from run_returns[OF assms(1,2), of thresh] obtain sf out where
      run: "farthest_neighbor_run n dists mlg thresh = Inr (sf, out)" by blast
    with s0 eq s2(1) have "sf = s2"
      by (auto simp: farthest_neighbor_run_def split: sum.splits)
    with run e2 show ?thesis by blast
  qed
  show ?thesis
    using ab a mem mem' nc size later fin
    by (intro exI[of _ a] exI[of _ b]) (simp add: nth)
qed

theorem merge_absorbs_higher_slot_witness:
  "labels_in_range 4 [1, 2, 3, 4] \<and> nonneg 4 example_dists
   \<and> reachable 4 example_dists [1, 2, 3, 4] 2
     (- 1, \<lparr>cluster_matrix = [[0, - 1, - 1, - 1], [1, - 1, - 1, - 1], [2, - 1, - 1, - 1], [3, - 1, - 1, - 1]],
            cluster_size = [1, 1, 1, 1], num_clusters = 4\<rparr>)
   \<and> loop_step 4 example_dists 2
     (- 1, \<lparr>cluster_matrix = [[0, - 1, - 1, - 1], [1, - 1, - 1, - 1], [2, - 1, - 1, - 1], [3, - 1, - 1, - 1]],
            cluster_size = [1, 1, 1, 1], num_clusters = 4\<rparr>)
     (1, \<lparr>cluster_matrix = [[0, 1, - 1, - 1], [- 1, - 1, - 1, - 1], [2, - 1, - 1, - 1], [3, - 1, - 1, - 1]],
          cluster_size = [2, 0, 1, 1], num_clusters = 3\<rparr>)
   \<and> (1 :: real) < 2
   \<and> (\<exists>a b. scan 4 example_dists [[0, - 1, - 1, - 1], [1, - 1, - 1, - 1], [2, - 1, - 1, - 1], [3, - 1, - 1, - 1]]
                = (1, (int a, int b)) \<and> a < b \<and> b < 4
           \<and> members [[0, 1, - 1, - 1], [- 1, - 1, - 1, - 1], [2, - 1, - 1, - 1], [3, - 1, - 1, - 1]] a =
               members [[0, - 1, - 1, - 1], [1, - 1, - 1, - 1], [2, - 1, - 1, - 1], [3, - 1, - 1, - 1]] a @
               members [[0, - 1, - 1, - 1], [1, - 1, - 1, - 1], [2, - 1, - 1, - 1], [3, - 1, - 1, - 1]] b
           \<and> members [[0, 1, - 1, - 1], [- 1, - 1, - 1, - 1], [2, - 1, - 1, - 1], [3, - 1, - 1, - 1]] b = []
           \<and> (\<exists>s_fin out. farthest_neighbor_run 4 example_dists [1, 2, 3, 4] 2 = Inr (s_fin, out)
                  \<and> members (cluster_matrix s_fin) b = []))"
proof -
  have lt: "(1 :: real) < 2" by simp
  from merge_absorbs_higher_slot[OF labels_example nonneg_example reachable_example_start
      loop_step_example lt]
  obtain a b where
    "scan 4 example_dists [[0, - 1, - 1, - 1], [1, - 1, - 1, - 1], [2, - 1, - 1, - 1], [3, - 1, - 1, - 1]]
                = (1, (int a, int b))" "a < b" "b < 4"
    "members [[0, 1, - 1, - 1], [- 1, - 1, - 1, - 1], [2, - 1, - 1, - 1], [3, - 1, - 1, - 1]] a =
               members [[0, - 1, - 1, - 1], [1, - 1, - 1, - 1], [2, - 1, - 1, - 1], [3, - 1, - 1, - 1]] a @
               members [[0, - 1, - 1, - 1], [1, - 1, - 1, - 1], [2, - 1, - 1, - 1], [3, - 1, - 1, - 1]] b"
    "members [[0, 1, - 1, - 1], [- 1, - 1, - 1, - 1], [2, - 1, - 1, - 1], [3, - 1, - 1, - 1]] b = []"
    "\<exists>s_fin out. farthest_neighbor_run 4 example_dists [1, 2, 3, 4] 2 = Inr (s_fin, out)
                  \<and> members (cluster_matrix s_fin) b = []"
    by auto
  then show ?thesis
    using labels_example nonneg_example reachable_example_start loop_step_example lt by blast
qed

text \<open>
  Claim C6. On labels in range and a non-negative matrix the call returns; every entity
  \<open>e\<close> is in a slot \<open>r\<close> of the final state and its label is \<open>r + 1\<close>; the id of an empty
  slot, plus one, is not in the output. The ids are not renumbered: the example of the
  specification returns the labels 1 and 3; the labels 2 and 4 of the empty slots 1 and 3
  do not occur.
\<close>

theorem output_label_is_slot_plus_one:
  assumes "labels_in_range n mlg" "nonneg n dists"
  shows "(\<exists>s out. farthest_neighbor_run n dists mlg thresh = Inr (s, out)
            \<and> farthest_neighbor n dists mlg thresh = Inr out
            \<and> length out = n
            \<and> (\<forall>e<n. \<exists>r<n. e \<in> set (members (cluster_matrix s) r) \<and> out ! e = Some (int r + 1))
            \<and> (\<forall>r<n. members (cluster_matrix s) r = [] \<longrightarrow> Some (int r + 1) \<notin> set out))
         \<and> farthest_neighbor 4 example_dists [1, 2, 3, 4] 2 = Inr [Some 1, Some 1, Some 3, Some 3]"
proof
  from run_returns[OF assms, of thresh] obtain m ms out where
    run: "farthest_neighbor_run n dists mlg thresh = Inr (state_of n ms, out)"
    and p: "parts n ms" and len: "length out = n"
    and lab: "\<And>r e. r < n \<Longrightarrow> e \<in> set (ms ! r) \<Longrightarrow> out ! e = Some (int r + 1)"
    by blast
  from p have lms: "length ms = n" by (simp add: parts_def)
  have mem: "\<And>r. r < n \<Longrightarrow> members (cluster_matrix (state_of n ms)) r = ms ! r"
    using lms by (simp add: members_state_of)
  have A: "\<forall>e<n. \<exists>r<n. e \<in> set (members (cluster_matrix (state_of n ms)) r) \<and> out ! e = Some (int r + 1)"
  proof (intro allI impI)
    fix e assume "e < n"
    from parts_slot_of[OF p this] obtain r where "r < n" "e \<in> set (ms ! r)" .
    then show "\<exists>r<n. e \<in> set (members (cluster_matrix (state_of n ms)) r) \<and> out ! e = Some (int r + 1)"
      using lab mem by auto
  qed
  have B: "\<forall>r<n. members (cluster_matrix (state_of n ms)) r = [] \<longrightarrow> Some (int r + 1) \<notin> set out"
  proof (intro allI impI notI)
    fix r assume r: "r < n" and emp: "members (cluster_matrix (state_of n ms)) r = []"
      and "Some (int r + 1) \<in> set out"
    then obtain e where e: "e < n" "out ! e = Some (int r + 1)"
      using len by (auto simp: in_set_conv_nth)
    from parts_slot_of[OF p e(1)] obtain r' where r': "r' < n" "e \<in> set (ms ! r')" .
    with lab e have "r' = r" by fastforce
    with r' emp r mem show False by auto
  qed
  show "\<exists>s out. farthest_neighbor_run n dists mlg thresh = Inr (s, out)
            \<and> farthest_neighbor n dists mlg thresh = Inr out
            \<and> length out = n
            \<and> (\<forall>e<n. \<exists>r<n. e \<in> set (members (cluster_matrix s) r) \<and> out ! e = Some (int r + 1))
            \<and> (\<forall>r<n. members (cluster_matrix s) r = [] \<longrightarrow> Some (int r + 1) \<notin> set out)"
    using run len A B
    by (intro exI[of _ "state_of n ms"] exI[of _ out]) (simp add: farthest_neighbor_def)
next
  show "farthest_neighbor 4 example_dists [1, 2, 3, 4] 2 = Inr [Some 1, Some 1, Some 3, Some 3]"
    by code_simp
qed

theorem output_label_is_slot_plus_one_witness:
  "labels_in_range 4 [1, 2, 3, 4] \<and> nonneg 4 example_dists
   \<and> (\<exists>s out. farthest_neighbor_run 4 example_dists [1, 2, 3, 4] 2 = Inr (s, out)
         \<and> farthest_neighbor 4 example_dists [1, 2, 3, 4] 2 = Inr out
         \<and> length out = 4
         \<and> (\<forall>e<4. \<exists>r<4. e \<in> set (members (cluster_matrix s) r) \<and> out ! e = Some (int r + 1))
         \<and> (\<forall>r<4. members (cluster_matrix s) r = [] \<longrightarrow> Some (int r + 1) \<notin> set out))"
  using output_label_is_slot_plus_one[OF labels_example nonneg_example, of 2]
    labels_example nonneg_example
  by blast

text \<open>
  Claim C7. On labels in range and a non-negative matrix, in every state at the head of
  the main loop (after the initialization and after each iteration) every entity is a
  member of exactly one slot, and no slot lists an entity twice; the call returns one
  label for every entity, and this label is one of the input labels.
\<close>

theorem every_entity_in_exactly_one_slot:
  assumes "labels_in_range n mlg" "nonneg n dists"
  shows "(\<forall>m s. reachable n dists mlg thresh (m, s) \<longrightarrow>
            (\<forall>e<n. \<exists>!r. r < n \<and> e \<in> set (members (cluster_matrix s) r))
            \<and> (\<forall>r<n. distinct (members (cluster_matrix s) r)))
         \<and> (\<exists>out. farthest_neighbor n dists mlg thresh = Inr out \<and> length out = n
               \<and> (\<forall>e<n. \<exists>l. out ! e = Some l \<and> l \<in> set mlg))"
proof (rule conjI)
  show "\<forall>m s. reachable n dists mlg thresh (m, s) \<longrightarrow>
            (\<forall>e<n. \<exists>!r. r < n \<and> e \<in> set (members (cluster_matrix s) r))
            \<and> (\<forall>r<n. distinct (members (cluster_matrix s) r))"
  proof (intro allI impI)
    fix m s assume re: "reachable n dists mlg thresh (m, s)"
    from reachable_stands_for[OF labels_in_range_ok[OF assms(1)] assms(2) re]
    obtain ms where s: "s = state_of n ms" and p: "parts n ms"
      by (auto simp: stands_for_def)
    from p have lms: "length ms = n" by (simp add: parts_def)
    have mem: "\<And>r. r < n \<Longrightarrow> members (cluster_matrix s) r = ms ! r"
      using lms s by (simp add: members_state_of)
    have one: "\<forall>e<n. \<exists>!r. r < n \<and> e \<in> set (members (cluster_matrix s) r)"
    proof (intro allI impI)
      fix e assume "e < n"
      from parts_slot_of[OF p this] obtain r where r: "r < n" "e \<in> set (ms ! r)" .
      show "\<exists>!r. r < n \<and> e \<in> set (members (cluster_matrix s) r)"
      proof (rule ex1I[of _ r])
        show "r < n \<and> e \<in> set (members (cluster_matrix s) r)" using r mem by simp
      next
        fix r' assume "r' < n \<and> e \<in> set (members (cluster_matrix s) r')"
        then have "r' < n" "e \<in> set (ms ! r')" using mem by auto
        from parts_unique_slot[OF p this(1) r(1) this(2) r(2)] show "r' = r" .
      qed
    qed
    have "\<forall>r<n. distinct (members (cluster_matrix s) r)"
      using p mem by (simp add: parts_def)
    with one show "(\<forall>e<n. \<exists>!r. r < n \<and> e \<in> set (members (cluster_matrix s) r))
            \<and> (\<forall>r<n. distinct (members (cluster_matrix s) r))" by blast
  qed
next
  from run_returns[OF assms, of thresh] obtain m ms out where
    run: "farthest_neighbor_run n dists mlg thresh = Inr (state_of n ms, out)"
    and p: "parts n ms" and ll: "lowest_label n mlg ms" and len: "length out = n"
    and lab: "\<And>r e. r < n \<Longrightarrow> e \<in> set (ms ! r) \<Longrightarrow> out ! e = Some (int r + 1)"
    by blast
  have "\<forall>e<n. \<exists>l. out ! e = Some l \<and> l \<in> set mlg"
  proof (intro allI impI)
    fix e assume "e < n"
    from parts_slot_of[OF p this] obtain r where r: "r < n" "e \<in> set (ms ! r)" .
    then have "ms ! r \<noteq> []" by auto
    with ll r obtain e' where e': "e' \<in> set (ms ! r)" "mlg ! e' = int r + 1"
      by (auto simp: lowest_label_def)
    with p r have "e' < n" by (auto simp: parts_def)
    with assms(1) e' have "int r + 1 \<in> set mlg"
      by (metis labels_in_range_def nth_mem)
    with lab[OF r] show "\<exists>l. out ! e = Some l \<and> l \<in> set mlg" by simp
  qed
  with run len show "\<exists>out. farthest_neighbor n dists mlg thresh = Inr out \<and> length out = n
               \<and> (\<forall>e<n. \<exists>l. out ! e = Some l \<and> l \<in> set mlg)"
    by (simp add: farthest_neighbor_def)
qed

theorem every_entity_in_exactly_one_slot_witness:
  "labels_in_range 4 [1, 2, 3, 4] \<and> nonneg 4 example_dists
   \<and> reachable 4 example_dists [1, 2, 3, 4] 2
       (1, \<lparr>cluster_matrix = [[0, 1, - 1, - 1], [- 1, - 1, - 1, - 1], [2, - 1, - 1, - 1], [3, - 1, - 1, - 1]],
            cluster_size = [2, 0, 1, 1], num_clusters = 3\<rparr>)
   \<and> (\<exists>!r. r < 4 \<and> 1 \<in> set (members [[0, 1, - 1, - 1], [- 1, - 1, - 1, - 1], [2, - 1, - 1, - 1], [3, - 1, - 1, - 1]] r))
   \<and> distinct (members [[0, 1, - 1, - 1], [- 1, - 1, - 1, - 1], [2, - 1, - 1, - 1], [3, - 1, - 1, - 1]] 0)
   \<and> (\<exists>out. farthest_neighbor 4 example_dists [1, 2, 3, 4] 2 = Inr out \<and> length out = 4
               \<and> (\<forall>e<4. \<exists>l. out ! e = Some l \<and> l \<in> set [1, 2, 3, 4]))"
proof -
  note th = every_entity_in_exactly_one_slot[OF labels_example nonneg_example, of 2]
  from th reachable_example have
    "(\<forall>e<4. \<exists>!r. r < 4 \<and> e \<in> set (members [[0, 1, - 1, - 1], [- 1, - 1, - 1, - 1], [2, - 1, - 1, - 1], [3, - 1, - 1, - 1]] r))
     \<and> (\<forall>r<4. distinct (members [[0, 1, - 1, - 1], [- 1, - 1, - 1, - 1], [2, - 1, - 1, - 1], [3, - 1, - 1, - 1]] r))"
    by fastforce
  then have "\<exists>!r. r < 4 \<and> (1::nat) \<in> set (members [[0, 1, - 1, - 1], [- 1, - 1, - 1, - 1], [2, - 1, - 1, - 1], [3, - 1, - 1, - 1]] r)"
    "distinct (members [[0, 1, - 1, - 1], [- 1, - 1, - 1, - 1], [2, - 1, - 1, - 1], [3, - 1, - 1, - 1]] 0)"
    by simp_all
  with th labels_example nonneg_example reachable_example show ?thesis by blast
qed

text \<open>
  Claim C8. On \<open>n = 4\<close>, labels \<open>[1, 2, 3, 4]\<close>, the distances above and threshold \<open>2\<close>,
  the first iteration merges slots 0 and 1 (entities 0 and 1), the second merges slots 2
  and 3 (entities 2 and 3), the third finds the distance 5 and merges nothing, and the
  call returns the labels \<open>[1, 1, 3, 3]\<close> from a final state with two clusters.
\<close>

theorem example_run:
  "fill_clusters 4 [1, 2, 3, 4] 0 (alloc 4) =
     Inr \<lparr>cluster_matrix = [[0, - 1, - 1, - 1], [1, - 1, - 1, - 1], [2, - 1, - 1, - 1], [3, - 1, - 1, - 1]],
          cluster_size = [1, 1, 1, 1], num_clusters = 4\<rparr>
   \<and> iteration 4 example_dists 2
       \<lparr>cluster_matrix = [[0, - 1, - 1, - 1], [1, - 1, - 1, - 1], [2, - 1, - 1, - 1], [3, - 1, - 1, - 1]],
        cluster_size = [1, 1, 1, 1], num_clusters = 4\<rparr> =
     Inr (1, \<lparr>cluster_matrix = [[0, 1, - 1, - 1], [- 1, - 1, - 1, - 1], [2, - 1, - 1, - 1], [3, - 1, - 1, - 1]],
              cluster_size = [2, 0, 1, 1], num_clusters = 3\<rparr>)
   \<and> iteration 4 example_dists 2
       \<lparr>cluster_matrix = [[0, 1, - 1, - 1], [- 1, - 1, - 1, - 1], [2, - 1, - 1, - 1], [3, - 1, - 1, - 1]],
        cluster_size = [2, 0, 1, 1], num_clusters = 3\<rparr> =
     Inr (1, \<lparr>cluster_matrix = [[0, 1, - 1, - 1], [- 1, - 1, - 1, - 1], [2, 3, - 1, - 1], [- 1, - 1, - 1, - 1]],
              cluster_size = [2, 0, 2, 0], num_clusters = 2\<rparr>)
   \<and> iteration 4 example_dists 2
       \<lparr>cluster_matrix = [[0, 1, - 1, - 1], [- 1, - 1, - 1, - 1], [2, 3, - 1, - 1], [- 1, - 1, - 1, - 1]],
        cluster_size = [2, 0, 2, 0], num_clusters = 2\<rparr> =
     Inr (5, \<lparr>cluster_matrix = [[0, 1, - 1, - 1], [- 1, - 1, - 1, - 1], [2, 3, - 1, - 1], [- 1, - 1, - 1, - 1]],
              cluster_size = [2, 0, 2, 0], num_clusters = 2\<rparr>)
   \<and> farthest_neighbor_run 4 example_dists [1, 2, 3, 4] 2 =
     Inr (\<lparr>cluster_matrix = [[0, 1, - 1, - 1], [- 1, - 1, - 1, - 1], [2, 3, - 1, - 1], [- 1, - 1, - 1, - 1]],
           cluster_size = [2, 0, 2, 0], num_clusters = 2\<rparr>,
          [Some 1, Some 1, Some 3, Some 3])
   \<and> farthest_neighbor 4 example_dists [1, 2, 3, 4] 2 = Inr [Some 1, Some 1, Some 3, Some 3]"
  by code_simp

text \<open>
  Claim C9. On labels in range and a non-negative matrix: if the input labeling is
  stable, the call returns it as it is; and whenever the labeling that the call returns is
  stable, the call on that labeling, with the same matrix and threshold, returns it again.
\<close>

theorem stable_labeling_is_returned_unchanged:
  assumes "labels_in_range n mlg" "nonneg n dists"
  shows "(stable n dists thresh mlg \<longrightarrow> farthest_neighbor n dists mlg thresh = Inr (map Some mlg))
         \<and> (\<forall>out. farthest_neighbor n dists mlg thresh = Inr out \<and> stable n dists thresh (map the out)
                \<longrightarrow> farthest_neighbor n dists (map the out) thresh = Inr out)"
proof (intro conjI allI impI)
  assume "stable n dists thresh mlg"
  with assms show "farthest_neighbor n dists mlg thresh = Inr (map Some mlg)" by (rule stable_run)
next
  fix out assume a: "farthest_neighbor n dists mlg thresh = Inr out \<and> stable n dists thresh (map the out)"
  from run_returns[OF assms, of thresh] obtain m ms out' where
    run: "farthest_neighbor_run n dists mlg thresh = Inr (state_of n ms, out')"
    and p: "parts n ms" and len: "length out' = n"
    and lab: "\<And>r e. r < n \<Longrightarrow> e \<in> set (ms ! r) \<Longrightarrow> out' ! e = Some (int r + 1)"
    by blast
  from run a have oo: "out' = out" by (simp add: farthest_neighbor_def)
  have each: "\<exists>r<n. out ! e = Some (int r + 1)" if "e < n" for e
  proof -
    from parts_slot_of[OF p that] obtain r where "r < n" "e \<in> set (ms ! r)" .
    with lab oo show ?thesis by auto
  qed
  have again: "map Some (map the out) = out"
  proof (rule nth_equalityI)
    show "length (map Some (map the out)) = length out" by simp
  next
    fix e assume "e < length (map Some (map the out))"
    then have "e < n" using len oo by simp
    from each[OF this] \<open>e < n\<close> len oo show "map Some (map the out) ! e = out ! e" by auto
  qed
  have "labels_in_range n (map the out)"
    unfolding labels_in_range_def list_all_length
  proof (intro conjI allI impI)
    show "length (map the out) = n" using len oo by simp
  next
    fix e assume "e < length (map the out)"
    then have e: "e < n" using len oo by simp
    from each[OF e] obtain r where "r < n" "out ! e = Some (int r + 1)" by blast
    with e len oo show "1 \<le> map the out ! e" "map the out ! e \<le> int n" by auto
  qed
  from stable_run[OF this assms(2), of thresh] a again
  show "farthest_neighbor n dists (map the out) thresh = Inr out" by simp
qed

theorem stable_labeling_is_returned_unchanged_witness:
  "labels_in_range 4 [1, 1, 3, 3] \<and> labels_in_range 4 [1, 2, 3, 4] \<and> nonneg 4 example_dists
   \<and> stable 4 example_dists 2 [1, 1, 3, 3]
   \<and> farthest_neighbor 4 example_dists [1, 1, 3, 3] 2 = Inr [Some 1, Some 1, Some 3, Some 3]
   \<and> farthest_neighbor 4 example_dists [1, 2, 3, 4] 2 = Inr [Some 1, Some 1, Some 3, Some 3]
   \<and> stable 4 example_dists 2 (map the [Some 1, Some 1, Some 3, Some 3])
   \<and> farthest_neighbor 4 example_dists (map the [Some 1, Some 1, Some 3, Some 3]) 2 =
       Inr [Some 1, Some 1, Some 3, Some 3]"
proof -
  have l1: "labels_in_range 4 [1, 1, 3, 3]" by code_simp
  have s1: "stable 4 example_dists 2 [1, 1, 3, 3]" by code_simp
  have s2: "stable 4 example_dists 2 (map the [Some 1, Some 1, Some 3, Some 3])" by code_simp
  have run: "farthest_neighbor 4 example_dists [1, 2, 3, 4] 2 = Inr [Some 1, Some 1, Some 3, Some 3]"
    by code_simp
  from stable_labeling_is_returned_unchanged[OF l1 nonneg_example, of 2] s1
  have a: "farthest_neighbor 4 example_dists [1, 1, 3, 3] 2 = Inr [Some 1, Some 1, Some 3, Some 3]"
    by simp
  from stable_labeling_is_returned_unchanged[OF labels_example nonneg_example, of 2] run s2
  have b: "farthest_neighbor 4 example_dists (map the [Some 1, Some 1, Some 3, Some 3]) 2 =
       Inr [Some 1, Some 1, Some 3, Some 3]"
    by blast
  show ?thesis using l1 labels_example nonneg_example s1 s2 run a b by blast
qed

text \<open>
  Claim C10. On labels in range and a non-negative matrix (symmetric or not) the label
  returned for an entity is the least input label among the entities that are returned
  with the same label, and it is not above the entity's input label.
\<close>

theorem output_label_is_least_input_label:
  assumes "labels_in_range n mlg" "nonneg n dists"
  shows "\<exists>out. farthest_neighbor n dists mlg thresh = Inr out \<and> length out = n
           \<and> (\<forall>e<n. \<exists>l. out ! e = Some l
                  \<and> l = Min {mlg ! e' | e'. e' < n \<and> out ! e' = out ! e}
                  \<and> l \<le> mlg ! e)"
proof -
  from run_returns[OF assms, of thresh] obtain m ms out where
    run: "farthest_neighbor_run n dists mlg thresh = Inr (state_of n ms, out)"
    and p: "parts n ms" and ll: "lowest_label n mlg ms" and len: "length out = n"
    and lab: "\<And>r e. r < n \<Longrightarrow> e \<in> set (ms ! r) \<Longrightarrow> out ! e = Some (int r + 1)"
    by blast
  have "\<forall>e<n. \<exists>l. out ! e = Some l
                  \<and> l = Min {mlg ! e' | e'. e' < n \<and> out ! e' = out ! e} \<and> l \<le> mlg ! e"
  proof (intro allI impI)
    fix e assume e: "e < n"
    from parts_slot_of[OF p this] obtain r where r: "r < n" "e \<in> set (ms ! r)" .
    then have ne: "ms ! r \<noteq> []" by auto
    have same: "{e'. e' < n \<and> out ! e' = out ! e} = set (ms ! r)"
    proof (intro set_eqI iffI)
      fix e' assume "e' \<in> {e'. e' < n \<and> out ! e' = out ! e}"
      then have e': "e' < n" "out ! e' = Some (int r + 1)" using lab[OF r] by auto
      from parts_slot_of[OF p e'(1)] obtain r' where r': "r' < n" "e' \<in> set (ms ! r')" .
      with lab[OF r'] e' have "r' = r" by simp
      with r' show "e' \<in> set (ms ! r)" by simp
    next
      fix e' assume "e' \<in> set (ms ! r)"
      with p r lab[OF r(1) this] lab[OF r] show "e' \<in> {e'. e' < n \<and> out ! e' = out ! e}"
        by (auto simp: parts_def)
    qed
    then have img: "{mlg ! e' | e'. e' < n \<and> out ! e' = out ! e} = (\<lambda>e'. mlg ! e') ` set (ms ! r)"
      by auto
    from ll r ne have lo: "\<forall>e'\<in>set (ms ! r). int r + 1 \<le> mlg ! e'"
      and ex: "\<exists>e'\<in>set (ms ! r). mlg ! e' = int r + 1"
      by (auto simp: lowest_label_def)
    have "Min ((\<lambda>e'. mlg ! e') ` set (ms ! r)) = int r + 1"
    proof (rule Min_eqI)
      show "finite ((\<lambda>e'. mlg ! e') ` set (ms ! r))" by simp
      show "\<And>y. y \<in> (\<lambda>e'. mlg ! e') ` set (ms ! r) \<Longrightarrow> int r + 1 \<le> y" using lo by auto
      show "int r + 1 \<in> (\<lambda>e'. mlg ! e') ` set (ms ! r)" using ex by force
    qed
    with img lab[OF r] lo r show "\<exists>l. out ! e = Some l
                  \<and> l = Min {mlg ! e' | e'. e' < n \<and> out ! e' = out ! e} \<and> l \<le> mlg ! e"
      by simp
  qed
  with run len show ?thesis by (simp add: farthest_neighbor_def)
qed

theorem output_label_is_least_input_label_witness:
  "labels_in_range 4 [1, 2, 3, 4] \<and> nonneg 4 example_dists
   \<and> (\<exists>out. farthest_neighbor 4 example_dists [1, 2, 3, 4] 2 = Inr out \<and> length out = 4
           \<and> (\<forall>e<4. \<exists>l. out ! e = Some l
                  \<and> l = Min {[1, 2, 3, 4] ! e' | e'. e' < 4 \<and> out ! e' = out ! e}
                  \<and> l \<le> [1, 2, 3, 4] ! e))"
  using output_label_is_least_input_label[OF labels_example nonneg_example, of 2]
    labels_example nonneg_example
  by blast

end
